theory Spec2Isabelle
  imports Complex_Main "HOL-Library.Word" "HOL-Library.AList"
begin

section \<open>Decimal quantities\<close>

text \<open>
  Modelled from the spec: the Decimal primitive (package \<^verbatim>\<open>github.com/shopspring/decimal\<close>,
  which is not part of the sources).  The spec describes it as an exact, arbitrary-precision
  decimal number with equality, ordering, addition, subtraction and division by an integer.
  The value of a Decimal is therefore a rational number; \<^verbatim>\<open>Equal\<close>, \<^verbatim>\<open>GreaterThan\<close>,
  \<^verbatim>\<open>LessThanOrEqual\<close>, \<^verbatim>\<open>Add\<close>, \<^verbatim>\<open>Sub\<close> are \<open>=\<close>, \<open>>\<close>, \<open>\<le>\<close>, \<open>+\<close>, \<open>-\<close>, all exact.
\<close>

type_synonym Decimal = rat

text \<open>
  Modelled from the spec: the division of the Decimal primitive.  \<^verbatim>\<open>d.Div(d2)\<close> of the
  package is \<^verbatim>\<open>d.DivRound(d2, DivisionPrecision)\<close> with \<^verbatim>\<open>DivisionPrecision = 16\<close>, which
  the sources never change: the quotient rounded to 16 decimal places, a half rounding away
  from zero.  The only divisor in the modelled code is \<^verbatim>\<open>decimal.NewFromFloat(2)\<close>, so the
  panic on a zero divisor is not modelled.
\<close>

definition DivisionPrecision :: nat where
  "DivisionPrecision = 16"

definition round_half_away :: "rat \<Rightarrow> int" where
  "round_half_away x = (if 0 \<le> x then \<lfloor>x + 1 / 2\<rfloor> else - \<lfloor>- x + 1 / 2\<rfloor>)"

definition Div :: "Decimal \<Rightarrow> Decimal \<Rightarrow> Decimal" where
  "Div d d2 = of_int (round_half_away (d / d2 * 10 ^ DivisionPrecision)) / 10 ^ DivisionPrecision"

section \<open>queue\_management.go: the enhanced order queue\<close>

record OrderInfo =
  ID :: "64 word"
  Qty :: Decimal
  Timestamp :: int
  Age :: int
  IsPartial :: bool

record EnhancedOrderQueue =
  orders :: "OrderInfo list"
  totalQty :: Decimal
  nextOrderID :: "64 word"
  priceLevel :: string
  lastUpdate :: int

text \<open>
  Every function that calls \<^verbatim>\<open>time.Now().UnixMilli()\<close> takes the clock reading as its
  first argument \<open>now\<close>.
\<close>

definition NewEnhancedOrderQueue :: "string \<Rightarrow> int \<Rightarrow> EnhancedOrderQueue" where
  "NewEnhancedOrderQueue price now =
     \<lparr>orders = [], totalQty = 0, nextOrderID = 1, priceLevel = price, lastUpdate = now\<rparr>"

definition AddOrder :: "int \<Rightarrow> Decimal \<Rightarrow> EnhancedOrderQueue \<Rightarrow> EnhancedOrderQueue" where
  "AddOrder now qty eq =
     (let order = \<lparr>ID = nextOrderID eq, Qty = qty, Timestamp = now, Age = 0, IsPartial = False\<rparr>
      in eq\<lparr>nextOrderID := nextOrderID eq + 1,
            orders := orders eq @ [order],
            totalQty := totalQty eq + qty,
            lastUpdate := now\<rparr>)"

text \<open>The slice expression \<^verbatim>\<open>append(s[:i], s[i+1:]...)\<close>.\<close>

definition remove_at :: "nat \<Rightarrow> 'a list \<Rightarrow> 'a list" where
  "remove_at i xs = take i xs @ drop (Suc i) xs"

text \<open>
  The back-to-front scan of \<^verbatim>\<open>RemoveQty\<close> (strategy 1): \<open>exactMatch os r n\<close> inspects the
  indices \<open>n - 1\<close>, \<open>n - 2\<close>, ..., \<open>0\<close> and returns the first one whose quantity equals \<open>r\<close>.
\<close>

fun exactMatch :: "OrderInfo list \<Rightarrow> Decimal \<Rightarrow> nat \<Rightarrow> nat option" where
  "exactMatch os r 0 = None"
| "exactMatch os r (Suc i) = (if Qty (os ! i) = r then Some i else exactMatch os r i)"

text \<open>
  \<^verbatim>\<open>getLargestOrderIndex\<close>: the result \<^verbatim>\<open>-1\<close> of the source is \<open>None\<close>.  The loop runs over
  the indices \<open>1, ..., len - 1\<close> and carries \<open>(maxIdx, maxQty)\<close>.
\<close>

definition getLargestOrderIndex :: "EnhancedOrderQueue \<Rightarrow> nat option" where
  "getLargestOrderIndex eq =
     (if length (orders eq) = 0 then None
      else Some (fst (fold (\<lambda>i (maxIdx, maxQty).
                              if Qty (orders eq ! i) > maxQty then (i, Qty (orders eq ! i))
                              else (maxIdx, maxQty))
                           [1..<length (orders eq)] (0, Qty (orders eq ! 0)))))"

definition getLargestOrderQty :: "EnhancedOrderQueue \<Rightarrow> Decimal" where
  "getLargestOrderQty eq =
     (case getLargestOrderIndex eq of None \<Rightarrow> 0 | Some idx \<Rightarrow> Qty (orders eq ! idx))"

text \<open>
  \<^verbatim>\<open>removeFIFO\<close>: the loop state is the index \<open>i\<close>, the queue and \<^verbatim>\<open>*remaining\<close>; the
  function returns the queue and the final value of \<^verbatim>\<open>*remaining\<close>.
\<close>

function removeFIFO_loop ::
  "nat \<Rightarrow> EnhancedOrderQueue \<Rightarrow> Decimal \<Rightarrow> EnhancedOrderQueue \<times> Decimal" where
  "removeFIFO_loop i eq remaining =
     (if i < length (orders eq) \<and> remaining > 0 then
        (let order = orders eq ! i in
         if Qty order \<le> remaining then
           removeFIFO_loop i
             (eq\<lparr>totalQty := totalQty eq - Qty order, orders := remove_at i (orders eq)\<rparr>)
             (remaining - Qty order)
         else
           removeFIFO_loop (Suc i)
             (eq\<lparr>orders := (orders eq)[i := order\<lparr>Qty := Qty order - remaining, IsPartial := True\<rparr>],
                 totalQty := totalQty eq - remaining\<rparr>)
             0)
      else (eq, remaining))"
  by pat_completeness auto
termination
  by (relation "measure (\<lambda>(i, eq, r). length (orders eq) - i)") (auto simp: remove_at_def)

definition removeFIFO :: "EnhancedOrderQueue \<Rightarrow> Decimal \<Rightarrow> EnhancedOrderQueue \<times> Decimal" where
  "removeFIFO eq remaining = removeFIFO_loop 0 eq remaining"

function removeFromLargestOrders ::
  "EnhancedOrderQueue \<Rightarrow> Decimal \<Rightarrow> EnhancedOrderQueue \<times> Decimal" where
  "removeFromLargestOrders eq remaining =
     (if remaining > 0 \<and> length (orders eq) > 0 then
        (case getLargestOrderIndex eq of
           None \<Rightarrow> (eq, remaining)
         | Some largestIdx \<Rightarrow>
             (let largestOrder = orders eq ! largestIdx in
              if Qty largestOrder \<le> remaining then
                removeFromLargestOrders
                  (eq\<lparr>totalQty := totalQty eq - Qty largestOrder,
                      orders := remove_at largestIdx (orders eq)\<rparr>)
                  (remaining - Qty largestOrder)
              else
                removeFromLargestOrders
                  (eq\<lparr>orders := (orders eq)[largestIdx :=
                                   largestOrder\<lparr>Qty := Qty largestOrder - remaining, IsPartial := True\<rparr>],
                      totalQty := totalQty eq - remaining\<rparr>)
                  0))
      else (eq, remaining))"
  by pat_completeness auto
termination
proof -
  have scan: "a < n \<Longrightarrow> m \<le> n \<Longrightarrow>
      fst (fold (\<lambda>i (maxIdx, maxQty).
                   if Qty (os ! i) > maxQty then (i, Qty (os ! i)) else (maxIdx, maxQty))
                [1..<m] (a, b)) < n"
    for a n m :: nat and b :: Decimal and os :: "OrderInfo list"
    by (induction m arbitrary: a b) (auto simp: case_prod_beta)
  have bound: "i < length (orders eq)" if "getLargestOrderIndex eq = Some i"
    for eq :: EnhancedOrderQueue and i :: nat
    using that scan [of 0 "length (orders eq)" "length (orders eq)" "orders eq"]
    by (auto simp: getLargestOrderIndex_def split: if_splits)
  show ?thesis
    by (relation "measure (\<lambda>(eq, r). 2 * length (orders eq) + (if r > 0 then 1 else 0))")
       (auto simp: remove_at_def dest: bound)
qed

definition RemoveQty :: "int \<Rightarrow> Decimal \<Rightarrow> EnhancedOrderQueue \<Rightarrow> EnhancedOrderQueue" where
  "RemoveQty now qtyToRemove eq =
     (if qtyToRemove \<le> 0 then eq
      else
        (case exactMatch (orders eq) qtyToRemove (length (orders eq)) of
           Some i \<Rightarrow>
             eq\<lparr>totalQty := totalQty eq - Qty (orders eq ! i),
                orders := remove_at i (orders eq),
                lastUpdate := now\<rparr>
         | None \<Rightarrow>
             (let (eq', remaining') =
                    (if qtyToRemove > Div (getLargestOrderQty eq) 2
                     then removeFromLargestOrders eq qtyToRemove
                     else removeFIFO eq qtyToRemove)
              in eq'\<lparr>lastUpdate := now\<rparr>)))"

definition UpdateAge :: "int \<Rightarrow> EnhancedOrderQueue \<Rightarrow> EnhancedOrderQueue" where
  "UpdateAge now eq = eq\<lparr>orders := map (\<lambda>order. order\<lparr>Age := now - Timestamp order\<rparr>) (orders eq)\<rparr>"

definition GetTotalQty :: "EnhancedOrderQueue \<Rightarrow> Decimal" where
  "GetTotalQty eq = totalQty eq"

text \<open>
  \<^verbatim>\<open>OptimizeQueue\<close>: the filter loop, the loop that recomputes the total, and
  \<^verbatim>\<open>sort.Slice\<close> on the timestamps.  \<^verbatim>\<open>sort.Slice\<close> promises a sorted permutation and
  no stability; \<open>sort_key\<close> is one such sort, a stable one, so among orders of equal
  timestamp the order of the model may differ from the order of the program.  The
  properties below use only that the result is a permutation of the argument.
\<close>

definition OptimizeQueue :: "int \<Rightarrow> EnhancedOrderQueue \<Rightarrow> EnhancedOrderQueue" where
  "OptimizeQueue now eq =
     (let filteredOrders = filter (\<lambda>order. Qty order > 0) (orders eq);
          total = fold (\<lambda>order t. t + Qty order) filteredOrders 0
      in eq\<lparr>orders := sort_key Timestamp filteredOrders, totalQty := total, lastUpdate := now\<rparr>)"

definition Clear :: "int \<Rightarrow> EnhancedOrderQueue \<Rightarrow> EnhancedOrderQueue" where
  "Clear now eq = eq\<lparr>orders := [], totalQty := 0, lastUpdate := now\<rparr>"

text \<open>
  The mutating operations of a queue, each with the clock reading it sees, and a run of
  such operations from left to right.
\<close>

datatype queue_op =
    OpAddOrder int Decimal
  | OpRemoveQty int Decimal
  | OpUpdateAge int
  | OpOptimizeQueue int
  | OpClear int

fun apply_op :: "queue_op \<Rightarrow> EnhancedOrderQueue \<Rightarrow> EnhancedOrderQueue" where
  "apply_op (OpAddOrder now qty) eq = AddOrder now qty eq"
| "apply_op (OpRemoveQty now qty) eq = RemoveQty now qty eq"
| "apply_op (OpUpdateAge now) eq = UpdateAge now eq"
| "apply_op (OpOptimizeQueue now) eq = OptimizeQueue now eq"
| "apply_op (OpClear now) eq = Clear now eq"

definition run_ops :: "queue_op list \<Rightarrow> EnhancedOrderQueue \<Rightarrow> EnhancedOrderQueue" where
  "run_ops ops eq = fold apply_op ops eq"

text \<open>The sum of the quantities of the orders in a queue, and the two queue invariants.\<close>

definition sum_qty :: "OrderInfo list \<Rightarrow> Decimal" where
  "sum_qty os = sum_list (map Qty os)"

definition total_ok :: "EnhancedOrderQueue \<Rightarrow> bool" where
  "total_ok eq = (totalQty eq = sum_qty (orders eq))"

definition all_positive :: "EnhancedOrderQueue \<Rightarrow> bool" where
  "all_positive eq = list_all (\<lambda>order. Qty order > 0) (orders eq)"

fun positive_add :: "queue_op \<Rightarrow> bool" where
  "positive_add (OpAddOrder now qty) = (qty > 0)"
| "positive_add _ = True"

section \<open>main.go: the order book\<close>

text \<open>
  The legacy \<^verbatim>\<open>OrderQueue\<close> is a struct whose only data field is the slice \<^verbatim>\<open>orders\<close> of
  quantities, so it is that list.
\<close>

type_synonym OrderQueue = "Decimal list"

definition sum_oq :: "OrderQueue \<Rightarrow> Decimal" where
  "sum_oq oq = fold (\<lambda>order total. total + order) oq 0"

definition largestOrderIndex :: "OrderQueue \<Rightarrow> nat option" where
  "largestOrderIndex oq =
     (if length oq = 0 then None
      else Some (fst (fold (\<lambda>i (maxIdx, maxOrder).
                              if oq ! i > maxOrder then (i, oq ! i) else (maxIdx, maxOrder))
                           [1..<length oq] (0, oq ! 0))))"

text \<open>The back-to-front scan for an exact match in \<^verbatim>\<open>updateQueue\<close>.\<close>

fun exactMatch_oq :: "OrderQueue \<Rightarrow> Decimal \<Rightarrow> nat \<Rightarrow> nat option" where
  "exactMatch_oq oq diff 0 = None"
| "exactMatch_oq oq diff (Suc i) = (if oq ! i = diff then Some i else exactMatch_oq oq diff i)"

text \<open>
  A Go map from price strings is an association list: lookup is \<open>map_of\<close>, assignment
  \<^verbatim>\<open>m[k] = v\<close> is \<open>AList.update\<close>, \<^verbatim>\<open>delete(m, k)\<close> is \<open>AList.delete\<close>.  The queues
  are reached through pointers stored in the map, so a mutation of a queue is an update of
  the entry.  Go leaves the order of a \<^verbatim>\<open>range\<close> loop over a map open; a loop whose result
  does not depend on that order visits the keys in the order of the list, and the loops of
  the clustering, whose result does depend on it, take the order as an argument.
\<close>

type_synonym 'v gomap = "(string \<times> 'v) list"

text \<open>
  The fields \<^verbatim>\<open>mu\<close> (a lock) and \<^verbatim>\<open>precision\<close> (read by no function modelled here) are
  left out.
\<close>

record L3OrderBook =
  bids :: "OrderQueue gomap"
  asks :: "OrderQueue gomap"
  enhancedBids :: "EnhancedOrderQueue gomap"
  enhancedAsks :: "EnhancedOrderQueue gomap"
  symbol :: string
  lastID :: int
  kmeansMode :: bool
  numClusters :: int
  useEnhancedMode :: bool
  lastOptimization :: int

text \<open>The fields \<^verbatim>\<open>U\<close>, \<^verbatim>\<open>u\<close>, \<^verbatim>\<open>B\<close>, \<^verbatim>\<open>A\<close> of \<^verbatim>\<open>binanceWSUpdate\<close>.\<close>

record binanceWSUpdate =
  upd_U :: int
  upd_u :: int
  upd_B :: "string list list"
  upd_A :: "string list list"

record binanceRESTResp =
  LastUpdateID :: int
  Bids :: "string list list"
  Asks :: "string list list"

text \<open>
  \<^verbatim>\<open>decimal.NewFromString\<close> belongs to the decimal package, which is not part of the
  sources: it is the argument \<open>NewFromString\<close> of every function that parses, with \<open>None\<close>
  for a returned error.
\<close>

type_synonym parser = "string \<Rightarrow> Decimal option"

definition NewL3OrderBook :: "string \<Rightarrow> int \<Rightarrow> L3OrderBook" where
  "NewL3OrderBook symbolName now =
     \<lparr>bids = [], asks = [], enhancedBids = [], enhancedAsks = [], symbol = symbolName, lastID = 0,
      kmeansMode = False, numClusters = 10, useEnhancedMode = True, lastOptimization = now\<rparr>"

text \<open>
  The source writes every loop over price levels twice, once for bids and once for asks;
  the flag \<open>isBid\<close> selects the pair of maps that a copy of the loop works on.
\<close>

definition legacySide :: "bool \<Rightarrow> L3OrderBook \<Rightarrow> OrderQueue gomap" where
  "legacySide isBid ob = (if isBid then bids ob else asks ob)"

definition setLegacySide :: "bool \<Rightarrow> OrderQueue gomap \<Rightarrow> L3OrderBook \<Rightarrow> L3OrderBook" where
  "setLegacySide isBid m ob = (if isBid then ob\<lparr>bids := m\<rparr> else ob\<lparr>asks := m\<rparr>)"

definition enhancedSide :: "bool \<Rightarrow> L3OrderBook \<Rightarrow> EnhancedOrderQueue gomap" where
  "enhancedSide isBid ob = (if isBid then enhancedBids ob else enhancedAsks ob)"

definition setEnhancedSide ::
  "bool \<Rightarrow> EnhancedOrderQueue gomap \<Rightarrow> L3OrderBook \<Rightarrow> L3OrderBook" where
  "setEnhancedSide isBid m ob = (if isBid then ob\<lparr>enhancedBids := m\<rparr> else ob\<lparr>enhancedAsks := m\<rparr>)"

text \<open>The body of the two loops of \<^verbatim>\<open>loadSnapshot\<close>, and \<^verbatim>\<open>loadSnapshot\<close>.\<close>

definition loadLevel :: "parser \<Rightarrow> int \<Rightarrow> bool \<Rightarrow> string list \<Rightarrow> L3OrderBook \<Rightarrow> L3OrderBook" where
  "loadLevel NewFromString now isBid bid ob =
     (if length bid < 2 then ob
      else
        (let price = bid ! 0 in
         case NewFromString (bid ! 1) of
           None \<Rightarrow> ob
         | Some qty \<Rightarrow>
             if qty = 0 then ob
             else
               (let ob1 = setLegacySide isBid (AList.update price [qty] (legacySide isBid ob)) ob
                in if useEnhancedMode ob1
                   then setEnhancedSide isBid
                          (AList.update price (AddOrder now qty (NewEnhancedOrderQueue price now))
                             (enhancedSide isBid ob1)) ob1
                   else ob1)))"

definition loadSnapshot :: "parser \<Rightarrow> int \<Rightarrow> binanceRESTResp \<Rightarrow> L3OrderBook \<Rightarrow> L3OrderBook" where
  "loadSnapshot NewFromString now resp ob =
     (let ob0 = ob\<lparr>bids := [], asks := [], enhancedBids := [], enhancedAsks := []\<rparr>;
          ob1 = fold (loadLevel NewFromString now True) (Bids resp) ob0;
          ob2 = fold (loadLevel NewFromString now False) (Asks resp) ob1
      in ob2\<lparr>lastID := LastUpdateID resp\<rparr>)"

definition updateQueue :: "string \<Rightarrow> Decimal \<Rightarrow> OrderQueue gomap \<Rightarrow> OrderQueue gomap" where
  "updateQueue price newQty side =
     (case map_of side price of
        None \<Rightarrow> AList.update price [newQty] side
      | Some queue \<Rightarrow>
          (let oldSum = sum_oq queue in
           if newQty > oldSum then AList.update price (queue @ [newQty - oldSum]) side
           else if newQty < oldSum then
             (let diff = oldSum - newQty in
              case exactMatch_oq queue diff (length queue) of
                Some i \<Rightarrow> AList.update price (remove_at i queue) side
              | None \<Rightarrow>
                  (case largestOrderIndex queue of
                     None \<Rightarrow> side
                   | Some largestIdx \<Rightarrow>
                       if queue ! largestIdx > diff
                       then AList.update price (queue[largestIdx := queue ! largestIdx - diff]) side
                       else AList.update price (remove_at largestIdx queue) side))
           else side))"

definition optimizeAllQueues :: "int \<Rightarrow> L3OrderBook \<Rightarrow> L3OrderBook" where
  "optimizeAllQueues now ob =
     ob\<lparr>enhancedBids := map (\<lambda>(price, queue). (price, OptimizeQueue now (UpdateAge now queue)))
                            (enhancedBids ob),
        enhancedAsks := map (\<lambda>(price, queue). (price, OptimizeQueue now (UpdateAge now queue)))
                            (enhancedAsks ob),
        lastOptimization := now\<rparr>"

definition updateEnhancedQueue ::
  "int \<Rightarrow> bool \<Rightarrow> string \<Rightarrow> Decimal \<Rightarrow> L3OrderBook \<Rightarrow> L3OrderBook" where
  "updateEnhancedQueue now isBid price newQty ob =
     (case map_of (enhancedSide isBid ob) price of
        None \<Rightarrow>
          setEnhancedSide isBid
            (AList.update price (AddOrder now newQty (NewEnhancedOrderQueue price now))
               (enhancedSide isBid ob)) ob
      | Some queue \<Rightarrow>
          (let oldSum = GetTotalQty queue;
               queue' = (if newQty > oldSum then AddOrder now (newQty - oldSum) queue
                         else if newQty < oldSum then RemoveQty now (oldSum - newQty) queue
                         else queue);
               ob' = setEnhancedSide isBid (AList.update price queue' (enhancedSide isBid ob)) ob
           in if now - lastOptimization ob' > 30000 then optimizeAllQueues now ob' else ob'))"

text \<open>
  The body of the two update loops of \<^verbatim>\<open>applyDelta\<close>: what happens to one entry
  \<^verbatim>\<open>[price, qty]\<close> of the update.
\<close>

definition applyLevel :: "parser \<Rightarrow> int \<Rightarrow> bool \<Rightarrow> string list \<Rightarrow> L3OrderBook \<Rightarrow> L3OrderBook" where
  "applyLevel NewFromString now isBid bid ob =
     (if length bid < 2 then ob
      else
        (let price = bid ! 0 in
         case NewFromString (bid ! 1) of
           None \<Rightarrow> ob
         | Some newQty \<Rightarrow>
             if newQty = 0 then
               (let ob1 = setLegacySide isBid (AList.delete price (legacySide isBid ob)) ob
                in if useEnhancedMode ob1
                   then setEnhancedSide isBid (AList.delete price (enhancedSide isBid ob1)) ob1
                   else ob1)
             else
               (let ob1 = setLegacySide isBid (updateQueue price newQty (legacySide isBid ob)) ob
                in if useEnhancedMode ob1
                   then updateEnhancedQueue now isBid price newQty ob1
                   else ob1)))"

text \<open>
  The pruning loops of \<^verbatim>\<open>applyDelta\<close>.  The expression \<^verbatim>\<open>update.B[0][0]\<close> is evaluated
  inside the loop, for every key that parses; it panics with an index out of range when the
  update has no entry on that side or its first entry is empty.
\<close>

datatype error = IndexOutOfRange

definition firstPrice :: "string list list \<Rightarrow> error + string" where
  "firstPrice entries =
     (case entries of
        [] \<Rightarrow> Inl IndexOutOfRange
      | entry # _ \<Rightarrow> (case entry of [] \<Rightarrow> Inl IndexOutOfRange | price # _ \<Rightarrow> Inr price))"

fun pruneScan :: "parser \<Rightarrow> bool \<Rightarrow> string list list \<Rightarrow> string list \<Rightarrow> error + string list" where
  "pruneScan NewFromString isBid entries [] = Inr []"
| "pruneScan NewFromString isBid entries (levelPrice # keys) =
     (case NewFromString levelPrice of
        None \<Rightarrow> pruneScan NewFromString isBid entries keys
      | Some pb \<Rightarrow>
          (case firstPrice entries of
             Inl e \<Rightarrow> Inl e
           | Inr first \<Rightarrow>
               (case NewFromString first of
                  None \<Rightarrow> pruneScan NewFromString isBid entries keys
                | Some p0 \<Rightarrow>
                    (case pruneScan NewFromString isBid entries keys of
                       Inl e \<Rightarrow> Inl e
                     | Inr tempPriceQueue \<Rightarrow>
                         Inr (if (if isBid then pb > p0 else pb < p0)
                              then levelPrice # tempPriceQueue else tempPriceQueue)))))"

text \<open>
  One side of \<^verbatim>\<open>applyDelta\<close>: the update loop, the scan that collects the prices to
  prune, and the loop that deletes them, which deletes from the legacy map only.
\<close>

definition applySide ::
  "parser \<Rightarrow> int \<Rightarrow> bool \<Rightarrow> string list list \<Rightarrow> L3OrderBook \<Rightarrow> error + L3OrderBook" where
  "applySide NewFromString now isBid entries ob =
     (let ob1 = fold (applyLevel NewFromString now isBid) entries ob in
      case pruneScan NewFromString isBid entries (map fst (legacySide isBid ob1)) of
        Inl e \<Rightarrow> Inl e
      | Inr tempPriceQueue \<Rightarrow>
          Inr (setLegacySide isBid (fold AList.delete tempPriceQueue (legacySide isBid ob1)) ob1))"

definition applyDelta :: "parser \<Rightarrow> int \<Rightarrow> binanceWSUpdate \<Rightarrow> L3OrderBook \<Rightarrow> error + L3OrderBook" where
  "applyDelta NewFromString now update ob =
     (case applySide NewFromString now True (upd_B update) ob of
        Inl e \<Rightarrow> Inl e
      | Inr ob1 \<Rightarrow> applySide NewFromString now False (upd_A update) ob1)"

section \<open>The clustering of a book side\<close>

text \<open>
  \<^verbatim>\<open>Fit\<close> first walks the map and collects, for every positive quantity, a point and an
  entry \<open>(price, qty)\<close> of \<^verbatim>\<open>orderList\<close>; \<open>keys\<close> is the order in which this \<^verbatim>\<open>range\<close>
  loop visits the map.
\<close>

definition extractOrders :: "string list \<Rightarrow> OrderQueue gomap \<Rightarrow> (string \<times> Decimal) list" where
  "extractOrders keys orderBook =
     concat (map (\<lambda>price. case map_of orderBook price of
                             None \<Rightarrow> []
                           | Some queue \<Rightarrow> map (Pair price) (filter (\<lambda>qty. qty > 0) queue)) keys)"

text \<open>
  The rest of \<^verbatim>\<open>Fit\<close> works on \<^verbatim>\<open>float64\<close> values and on the stream of \<^verbatim>\<open>math/rand\<close>:
  it normalises the points, initialises or reuses the centroids kept in the receiver, runs
  the mini-batch updates, and fills \<^verbatim>\<open>labels := make([]int, len(points))\<close> with one label per
  point, remapped by the rank of its centroid.  That computation is the argument
  \<open>labelOf\<close>: \<open>labelOf points i\<close> is the final \<^verbatim>\<open>labels[i]\<close>.
\<close>

definition Fit :: "(Decimal list \<Rightarrow> nat \<Rightarrow> int) \<Rightarrow> string list \<Rightarrow> OrderQueue gomap \<Rightarrow> int list" where
  "Fit labelOf keys orderBook =
     (let points = map snd (extractOrders keys orderBook) in
      if length points = 0 then [] else map (labelOf points) [0..<length points])"

type_synonym ClusteredOrder = "Decimal \<times> int"

text \<open>The inner loop of \<^verbatim>\<open>ClusterOrderBook\<close> over one queue; it carries \<^verbatim>\<open>labelIdx\<close>.\<close>

fun clusterQueue :: "int list \<Rightarrow> OrderQueue \<Rightarrow> nat \<Rightarrow> ClusteredOrder list \<times> nat" where
  "clusterQueue labels [] labelIdx = ([], labelIdx)"
| "clusterQueue labels (qty # queue) labelIdx =
     (if qty > 0 then
        (let cluster = (if labelIdx < length labels then labels ! labelIdx else 0);
             labelIdx' = (if labelIdx < length labels then labelIdx + 1 else labelIdx);
             (clustered, labelIdx'') = clusterQueue labels queue labelIdx'
         in ((qty, cluster) # clustered, labelIdx''))
      else clusterQueue labels queue labelIdx)"

text \<open>The outer loop over the map, visiting the prices in the order \<open>keys\<close>.\<close>

fun clusterLevels ::
  "int list \<Rightarrow> OrderQueue gomap \<Rightarrow> string list \<Rightarrow> nat \<Rightarrow> ClusteredOrder list gomap \<Rightarrow>
     ClusteredOrder list gomap" where
  "clusterLevels labels orderBook [] labelIdx clusteredOrders = clusteredOrders"
| "clusterLevels labels orderBook (price # keys) labelIdx clusteredOrders =
     (case map_of orderBook price of
        None \<Rightarrow> clusterLevels labels orderBook keys labelIdx clusteredOrders
      | Some queue \<Rightarrow>
          (let (clustered, labelIdx') = clusterQueue labels queue labelIdx
           in clusterLevels labels orderBook keys labelIdx'
                (if length clustered > 0 then AList.update price clustered clusteredOrders
                 else clusteredOrders)))"

text \<open>
  \<^verbatim>\<open>ClusterOrderBook\<close>: \<open>keysFit\<close> is the order in which the \<^verbatim>\<open>range\<close> loop inside
  \<^verbatim>\<open>Fit\<close> visits the map and \<open>keysOut\<close> the order in which the \<^verbatim>\<open>range\<close> loop of
  \<^verbatim>\<open>ClusterOrderBook\<close> itself visits it.  The choice of the global clusterer by \<^verbatim>\<open>isBid\<close>
  and \<^verbatim>\<open>numClusters\<close> is part of \<open>labelOf\<close>.
\<close>

definition ClusterOrderBook ::
  "(Decimal list \<Rightarrow> nat \<Rightarrow> int) \<Rightarrow> string list \<Rightarrow> string list \<Rightarrow> OrderQueue gomap \<Rightarrow>
     ClusteredOrder list gomap" where
  "ClusterOrderBook labelOf keysFit keysOut orderBook =
     (let labels = Fit labelOf keysFit orderBook
      in clusterLevels labels orderBook keysOut 0 [])"

section \<open>Well-formed books\<close>

text \<open>
  A queue is well formed when its cached total is the sum of its order quantities and these
  are all positive; a book is well formed when it runs in enhanced mode and all its enhanced
  queues are well formed.  An entry of a snapshot or an update is non-negative when its
  quantity, if it parses, is not negative.
\<close>

definition wf_queue :: "EnhancedOrderQueue \<Rightarrow> bool" where
  "wf_queue eq = (total_ok eq \<and> all_positive eq)"

definition wf_book :: "L3OrderBook \<Rightarrow> bool" where
  "wf_book ob =
     (useEnhancedMode ob \<and> list_all (\<lambda>(price, queue). wf_queue queue) (enhancedBids ob) \<and>
      list_all (\<lambda>(price, queue). wf_queue queue) (enhancedAsks ob))"

fun nonnegative_entry :: "parser \<Rightarrow> string list \<Rightarrow> bool" where
  "nonnegative_entry NewFromString (price # qtyStr # extra) =
     (case NewFromString qtyStr of None \<Rightarrow> True | Some qty \<Rightarrow> qty \<ge> 0)"
| "nonnegative_entry NewFromString _ = True"

section \<open>Worked examples\<close>

text \<open>
  The values of \<^verbatim>\<open>decimal.NewFromString\<close> on the strings that the worked examples use;
  every other string counts as a parse error.
\<close>

definition sampleNewFromString :: parser where
  "sampleNewFromString =
     map_of [(''1'', 1), (''5'', 5), (''8'', 8), (''-3'', -3),
             (''99'', 99), (''100'', 100), (''101'', 101), (''102'', 102)]"

text \<open>
  A queue with the two orders \<open>0.0000000000000001\<close> and \<open>0.0000000000000003\<close>, quantities
  of 16 decimals.
\<close>

definition tinyQueue :: EnhancedOrderQueue where
  "tinyQueue =
     run_ops [OpAddOrder 0 (1 / 10 ^ 16), OpAddOrder 1 (3 / 10 ^ 16)]
       (NewEnhancedOrderQueue ''100.0'' 0)"

text \<open>A book loaded from a snapshot with the single bid level \<open>100\<close> of quantity \<open>5\<close>.\<close>

definition oneLevelBook :: L3OrderBook where
  "oneLevelBook =
     loadSnapshot sampleNewFromString 0
       \<lparr>LastUpdateID = 1, Bids = [ [''100'', ''5''] ], Asks = []\<rparr> (NewL3OrderBook ''ag2510'' 0)"

text \<open>A book loaded from a snapshot with the bid levels \<open>100\<close>, \<open>101\<close> and \<open>102\<close>.\<close>

definition threeLevelBook :: L3OrderBook where
  "threeLevelBook =
     loadSnapshot sampleNewFromString 0
       \<lparr>LastUpdateID = 1, Bids = [ [''100'', ''5''], [''101'', ''5''], [''102'', ''5''] ], Asks = []\<rparr>
       (NewL3OrderBook ''ag2510'' 0)"

section \<open>The removal strategies as the specification words them\<close>

text \<open>
  Largest-first, in the words of the specification: find the largest order, the first
  occurrence winning on ties; if its quantity exceeds \<open>diff\<close>, subtract \<open>diff\<close> from it and
  mark it partial; otherwise remove it entirely, subtract its quantity from \<open>diff\<close> and repeat,
  until \<open>diff\<close> is exhausted or the queue is empty.
\<close>

function largest_first_spec :: "Decimal \<Rightarrow> OrderInfo list \<Rightarrow> OrderInfo list" where
  "largest_first_spec diff os =
     (if diff \<le> 0 \<or> os = [] then os
      else
        (let largest = Max (Qty ` set os);
             before = takeWhile (\<lambda>order. Qty order \<noteq> largest) os;
             rest = dropWhile (\<lambda>order. Qty order \<noteq> largest) os
         in if Qty (hd rest) > diff
            then before @ (hd rest)\<lparr>Qty := Qty (hd rest) - diff, IsPartial := True\<rparr> # tl rest
            else largest_first_spec (diff - Qty (hd rest)) (before @ tl rest)))"
  by pat_completeness auto
termination
proof (relation "measure (\<lambda>(diff, os). length os)", goal_cases)
  case 1
  show ?case by simp
next
  case (2 diff os largest before rest)
  then have "os \<noteq> []" by simp
  then have "largest \<in> Qty ` set os"
    unfolding 2(2) by (intro Max_in) auto
  then have "rest \<noteq> []"
    unfolding 2(4) by (auto simp: dropWhile_eq_Nil_conv)
  moreover have "length before + length rest = length os"
    unfolding 2(3,4) by (metis length_append takeWhile_dropWhile_id)
  ultimately show ?case by (cases rest) auto
qed

text \<open>
  First-in-first-out, in the words of the specification: from the front, whole orders are
  consumed while their quantity is at most the remaining \<open>diff\<close>; the first order whose
  quantity exceeds the remaining \<open>diff\<close> absorbs the remainder, its quantity decreases and it
  is marked partial.  An order is partial once a portion of it has been removed, so when the
  whole orders consumed use up \<open>diff\<close> exactly there is no remainder to absorb and the next
  order stays as it is.
\<close>

fun fifo_spec :: "Decimal \<Rightarrow> OrderInfo list \<Rightarrow> OrderInfo list" where
  "fifo_spec diff [] = []"
| "fifo_spec diff (order # os) =
     (if diff \<le> 0 then order # os
      else if Qty order \<le> diff then fifo_spec (diff - Qty order) os
      else order\<lparr>Qty := Qty order - diff, IsPartial := True\<rparr> # os)"

section \<open>Properties of the enhanced order queue\<close>

declare removeFIFO_loop.simps [simp del]
declare removeFromLargestOrders.simps [simp del]

lemma round_half_away_of_int: "round_half_away (of_int n) = n"
proof -
  have "\<lfloor>(of_int m :: rat) + 1 / 2\<rfloor> = m" for m :: int
    by (simp add: floor_unique)
  from this [of n] this [of "- n"] show ?thesis
    by (simp add: round_half_away_def)
qed

lemma Div_two_exact:
  assumes "x * 10 ^ 15 \<in> \<int>"
  shows "Div x 2 = x / 2"
proof -
  define y where "y = x * 10 ^ 15"
  from assms obtain k :: int where k: "y = of_int k"
    unfolding y_def by (auto elim: Ints_cases)
  have x: "x = y / 10 ^ 15" by (simp add: y_def)
  have "x / 2 * 10 ^ DivisionPrecision = y * 5"
    unfolding x by (simp add: DivisionPrecision_def)
  also have "\<dots> = of_int (k * 5)" by (simp add: k)
  finally have "round_half_away (x / 2 * 10 ^ DivisionPrecision) = k * 5"
    by (simp only: round_half_away_of_int)
  then have "Div x 2 = of_int (k * 5) / 10 ^ DivisionPrecision"
    by (simp add: Div_def)
  also have "\<dots> = y * 5 / 10 ^ DivisionPrecision" by (simp add: k)
  also have "\<dots> = x / 2" unfolding x by (simp add: DivisionPrecision_def)
  finally show ?thesis .
qed

lemma getLargestOrderIndex_less:
  assumes "getLargestOrderIndex eq = Some i"
  shows "i < length (orders eq)"
proof -
  have scan: "a < n \<Longrightarrow> m \<le> n \<Longrightarrow>
      fst (fold (\<lambda>i (maxIdx, maxQty).
                   if Qty (os ! i) > maxQty then (i, Qty (os ! i)) else (maxIdx, maxQty))
                [1..<m] (a, b)) < n"
    for a n m :: nat and b :: Decimal and os :: "OrderInfo list"
    by (induction m arbitrary: a b) (auto simp: case_prod_beta)
  from assms scan [of 0 "length (orders eq)" "length (orders eq)" "orders eq"]
  show ?thesis
    by (auto simp: getLargestOrderIndex_def split: if_splits)
qed

lemma sum_qty_remove_at:
  "i < length os \<Longrightarrow> sum_qty (remove_at i os) = sum_qty os - Qty (os ! i)"
proof -
  assume "i < length os"
  then have "os = take i os @ os ! i # drop (Suc i) os"
    by (simp add: id_take_nth_drop)
  then have "sum_qty os = sum_qty (take i os) + Qty (os ! i) + sum_qty (drop (Suc i) os)"
    unfolding sum_qty_def by (metis (no_types) add.assoc list.simps(9) map_append sum_list.Cons sum_list.append)
  then show ?thesis by (simp add: remove_at_def sum_qty_def)
qed

lemma sum_qty_update:
  "i < length os \<Longrightarrow> sum_qty (os[i := x]) = sum_qty os - Qty (os ! i) + Qty x"
proof -
  assume i: "i < length os"
  then have "os = take i os @ os ! i # drop (Suc i) os"
    by (simp add: id_take_nth_drop)
  then have a: "sum_qty os = sum_qty (take i os) + Qty (os ! i) + sum_qty (drop (Suc i) os)"
    unfolding sum_qty_def by (metis (no_types) add.assoc list.simps(9) map_append sum_list.Cons sum_list.append)
  from i have "os[i := x] = take i os @ x # drop (Suc i) os"
    by (simp add: upd_conv_take_nth_drop)
  then have "sum_qty (os[i := x]) = sum_qty (take i os) + Qty x + sum_qty (drop (Suc i) os)"
    by (simp add: sum_qty_def)
  with a show ?thesis by simp
qed

lemma removeFIFO_loop_inv:
  assumes "P eq r"
    and "\<And>eq r i. P eq r \<Longrightarrow> r > 0 \<Longrightarrow> i < length (orders eq) \<Longrightarrow> Qty (orders eq ! i) \<le> r \<Longrightarrow>
           P (eq\<lparr>totalQty := totalQty eq - Qty (orders eq ! i), orders := remove_at i (orders eq)\<rparr>)
             (r - Qty (orders eq ! i))"
    and "\<And>eq r i. P eq r \<Longrightarrow> r > 0 \<Longrightarrow> i < length (orders eq) \<Longrightarrow> Qty (orders eq ! i) > r \<Longrightarrow>
           P (eq\<lparr>orders := (orders eq)[i := (orders eq ! i)\<lparr>Qty := Qty (orders eq ! i) - r,
                                                               IsPartial := True\<rparr>],
                 totalQty := totalQty eq - r\<rparr>) 0"
  shows "P (fst (removeFIFO_loop i eq r)) (snd (removeFIFO_loop i eq r))"
  using assms(1)
proof (induction i eq r rule: removeFIFO_loop.induct)
  case (1 i eq remaining)
  show ?case
  proof (cases "i < length (orders eq) \<and> remaining > 0")
    case False
    then show ?thesis using "1.prems" by (subst (1 2) removeFIFO_loop.simps) auto
  next
    case True
    show ?thesis
    proof (cases "Qty (orders eq ! i) \<le> remaining")
      case le: True
      from True le "1.prems" have
        "P (eq\<lparr>totalQty := totalQty eq - Qty (orders eq ! i), orders := remove_at i (orders eq)\<rparr>)
           (remaining - Qty (orders eq ! i))"
        by (intro assms(2)) auto
      from "1.IH"(1) [OF True refl le this] True le show ?thesis
        by (subst (1 2) removeFIFO_loop.simps) (simp add: Let_def)
    next
      case gt: False
      from True gt "1.prems" have
        "P (eq\<lparr>orders := (orders eq)[i := (orders eq ! i)\<lparr>Qty := Qty (orders eq ! i) - remaining,
                                                          IsPartial := True\<rparr>],
               totalQty := totalQty eq - remaining\<rparr>) 0"
        by (intro assms(3)) auto
      from "1.IH"(2) [OF True refl gt this] True gt show ?thesis
        by (subst (1 2) removeFIFO_loop.simps) (simp add: Let_def)
    qed
  qed
qed

lemma removeFromLargestOrders_inv:
  assumes "P eq r"
    and "\<And>eq r i. P eq r \<Longrightarrow> r > 0 \<Longrightarrow> getLargestOrderIndex eq = Some i \<Longrightarrow>
           i < length (orders eq) \<Longrightarrow> Qty (orders eq ! i) \<le> r \<Longrightarrow>
           P (eq\<lparr>totalQty := totalQty eq - Qty (orders eq ! i), orders := remove_at i (orders eq)\<rparr>)
             (r - Qty (orders eq ! i))"
    and "\<And>eq r i. P eq r \<Longrightarrow> r > 0 \<Longrightarrow> getLargestOrderIndex eq = Some i \<Longrightarrow>
           i < length (orders eq) \<Longrightarrow> Qty (orders eq ! i) > r \<Longrightarrow>
           P (eq\<lparr>orders := (orders eq)[i := (orders eq ! i)\<lparr>Qty := Qty (orders eq ! i) - r,
                                                               IsPartial := True\<rparr>],
                 totalQty := totalQty eq - r\<rparr>) 0"
  shows "P (fst (removeFromLargestOrders eq r)) (snd (removeFromLargestOrders eq r))"
  using assms(1)
proof (induction eq r rule: removeFromLargestOrders.induct)
  case (1 eq remaining)
  show ?case
  proof (cases "remaining > 0 \<and> length (orders eq) > 0")
    case False
    then show ?thesis using "1.prems" by (subst (1 2) removeFromLargestOrders.simps) auto
  next
    case True
    then obtain idx where idx: "getLargestOrderIndex eq = Some idx"
      by (auto simp: getLargestOrderIndex_def)
    note lt = getLargestOrderIndex_less [OF idx]
    show ?thesis
    proof (cases "Qty (orders eq ! idx) \<le> remaining")
      case le: True
      from True le "1.prems" idx lt have
        "P (eq\<lparr>totalQty := totalQty eq - Qty (orders eq ! idx), orders := remove_at idx (orders eq)\<rparr>)
           (remaining - Qty (orders eq ! idx))"
        by (intro assms(2)) auto
      from "1.IH"(1) [OF True idx refl le this] True le idx show ?thesis
        by (subst (1 2) removeFromLargestOrders.simps) (simp add: Let_def)
    next
      case gt: False
      from True gt "1.prems" idx lt have
        "P (eq\<lparr>orders := (orders eq)[idx := (orders eq ! idx)\<lparr>Qty := Qty (orders eq ! idx) - remaining,
                                                              IsPartial := True\<rparr>],
               totalQty := totalQty eq - remaining\<rparr>) 0"
        by (intro assms(3)) auto
      from "1.IH"(2) [OF True idx refl gt this] True gt idx show ?thesis
        by (subst (1 2) removeFromLargestOrders.simps) (simp add: Let_def)
    qed
  qed
qed

lemma removeFIFO_loop_total_ok:
  "total_ok eq \<Longrightarrow> total_ok (fst (removeFIFO_loop i eq r))"
  by (rule removeFIFO_loop_inv [where P = "\<lambda>eq r. total_ok eq"])
     (simp_all add: total_ok_def sum_qty_remove_at sum_qty_update)

lemma removeFromLargestOrders_total_ok:
  "total_ok eq \<Longrightarrow> total_ok (fst (removeFromLargestOrders eq r))"
  by (rule removeFromLargestOrders_inv [where P = "\<lambda>eq r. total_ok eq"])
     (simp_all add: total_ok_def sum_qty_remove_at sum_qty_update)

lemma exactMatch_Some:
  "exactMatch os r n = Some i \<Longrightarrow>
     i < n \<and> Qty (os ! i) = r \<and> (\<forall>j. i < j \<and> j < n \<longrightarrow> Qty (os ! j) \<noteq> r)"
proof (induction n)
  case 0 then show ?case by simp
next
  case (Suc n)
  then show ?case by (auto split: if_splits simp: less_Suc_eq)
qed

lemma RemoveQty_total_ok: "total_ok eq \<Longrightarrow> total_ok (RemoveQty now d eq)"
  using removeFIFO_loop_total_ok [of eq 0 d] removeFromLargestOrders_total_ok [of eq d]
  by (auto simp: RemoveQty_def removeFIFO_def total_ok_def sum_qty_remove_at
           split: option.splits prod.splits dest!: exactMatch_Some)

lemma fold_add_qty: "fold (\<lambda>order t. t + Qty order) os a = a + sum_qty os"
  by (induction os arbitrary: a) (auto simp: sum_qty_def)

lemma sum_qty_insort_key: "sum_qty (insort_key f x os) = Qty x + sum_qty os"
  by (induction os) (auto simp: sum_qty_def)

lemma sum_qty_sort_key: "sum_qty (sort_key f os) = sum_qty os"
  by (induction os) (simp_all add: sum_qty_insort_key, simp_all add: sum_qty_def)

lemma OptimizeQueue_total_ok: "total_ok (OptimizeQueue now eq)"
  by (simp add: OptimizeQueue_def Let_def total_ok_def fold_add_qty sum_qty_sort_key)

lemma AddOrder_total_ok: "total_ok eq \<Longrightarrow> total_ok (AddOrder now qty eq)"
  by (simp add: AddOrder_def Let_def total_ok_def sum_qty_def)

lemma UpdateAge_total_ok: "total_ok eq \<Longrightarrow> total_ok (UpdateAge now eq)"
  by (simp add: UpdateAge_def total_ok_def sum_qty_def comp_def)

lemma Clear_total_ok: "total_ok (Clear now eq)"
  by (simp add: Clear_def total_ok_def sum_qty_def)

lemma apply_op_total_ok: "total_ok eq \<Longrightarrow> total_ok (apply_op op eq)"
  by (cases op)
     (simp_all add: AddOrder_total_ok RemoveQty_total_ok UpdateAge_total_ok
        OptimizeQueue_total_ok Clear_total_ok)

lemma run_ops_total_ok: "total_ok eq \<Longrightarrow> total_ok (run_ops ops eq)"
  unfolding run_ops_def by (induction ops arbitrary: eq) (simp_all add: apply_op_total_ok)


text \<open>
  Claim C1.  Starting from a new queue, after every sequence of operations (add, remove,
  update of the ages, optimize, clear) the cached total \<open>totalQty\<close> equals the sum of the
  quantities of the orders that the queue holds.  Since the sequence is arbitrary, this holds
  at every operation boundary.
\<close>

theorem total_qty_is_sum:
  "totalQty (run_ops ops (NewEnhancedOrderQueue price now)) =
     sum_list (map Qty (orders (run_ops ops (NewEnhancedOrderQueue price now))))"
proof -
  have "total_ok (NewEnhancedOrderQueue price now)"
    by (simp add: NewEnhancedOrderQueue_def total_ok_def sum_qty_def)
  then have "total_ok (run_ops ops (NewEnhancedOrderQueue price now))"
    by (rule run_ops_total_ok)
  then show ?thesis by (simp add: total_ok_def sum_qty_def)
qed

theorem total_qty_is_sum_witness:
  "totalQty (run_ops [OpAddOrder 0 5, OpAddOrder 1 3, OpRemoveQty 2 3, OpAddOrder 3 4]
              (NewEnhancedOrderQueue ''100.0'' 0)) = 9 \<and>
   map Qty (orders (run_ops [OpAddOrder 0 5, OpAddOrder 1 3, OpRemoveQty 2 3, OpAddOrder 3 4]
              (NewEnhancedOrderQueue ''100.0'' 0))) = [5, 4]"
  using total_qty_is_sum [of "[OpAddOrder 0 5, OpAddOrder 1 3, OpRemoveQty 2 3, OpAddOrder 3 4]"
                             "''100.0''" 0]
  by (simp add: run_ops_def NewEnhancedOrderQueue_def AddOrder_def RemoveQty_def remove_at_def)

lemma exactMatch_None:
  "exactMatch os r n = None \<longleftrightarrow> (\<forall>j < n. Qty (os ! j) \<noteq> r)"
  by (induction n) (auto simp: less_Suc_eq)

text \<open>
  Claim C10.  \<^verbatim>\<open>RemoveQty\<close> with a quantity that is zero or negative returns the queue as
  it was: the order sequence, every order's quantity and partial flag, the total and every
  other field are unchanged.
\<close>

theorem RemoveQty_nonpositive_noop:
  "qtyToRemove \<le> 0 \<Longrightarrow> RemoveQty now qtyToRemove eq = eq"
  by (simp add: RemoveQty_def)

theorem RemoveQty_nonpositive_noop_witness:
  "RemoveQty 7 (-2) (AddOrder 1 3 (AddOrder 0 5 (NewEnhancedOrderQueue ''100.0'' 0))) =
     AddOrder 1 3 (AddOrder 0 5 (NewEnhancedOrderQueue ''100.0'' 0))"
proof -
  have h: "(-2::Decimal) \<le> 0" by simp
  from RemoveQty_nonpositive_noop [OF h] show ?thesis .
qed

text \<open>
  Claim C4.  When the quantity to remove is positive and some order has exactly that
  quantity, \<^verbatim>\<open>RemoveQty\<close> removes the newest such order (the one with the greatest index)
  and nothing else: the resulting sequence is the old one without that element, so every
  other order keeps its quantity, its flags and its relative position.  The total drops by
  that quantity and the counter of identifiers is unchanged.
\<close>

theorem RemoveQty_exact_match:
  assumes "0 < d" and "\<exists>order \<in> set (orders eq). Qty order = d"
  shows "\<exists>i < length (orders eq).
           Qty (orders eq ! i) = d \<and>
           (\<forall>j. i < j \<and> j < length (orders eq) \<longrightarrow> Qty (orders eq ! j) \<noteq> d) \<and>
           orders (RemoveQty now d eq) = take i (orders eq) @ drop (Suc i) (orders eq) \<and>
           totalQty (RemoveQty now d eq) = totalQty eq - d \<and>
           nextOrderID (RemoveQty now d eq) = nextOrderID eq"
proof -
  from assms(2) obtain k where "k < length (orders eq)" "Qty (orders eq ! k) = d"
    by (auto simp: in_set_conv_nth)
  then have "exactMatch (orders eq) d (length (orders eq)) \<noteq> None"
    by (auto simp: exactMatch_None)
  then obtain i where i: "exactMatch (orders eq) d (length (orders eq)) = Some i" by auto
  note p = exactMatch_Some [OF i]
  from assms(1) i have "RemoveQty now d eq =
      eq\<lparr>totalQty := totalQty eq - Qty (orders eq ! i), orders := remove_at i (orders eq),
         lastUpdate := now\<rparr>"
    by (simp add: RemoveQty_def)
  with p show ?thesis by (auto simp: remove_at_def intro!: exI [of _ i])
qed

theorem RemoveQty_exact_match_witness:
  "map Qty (orders (RemoveQty 9 3 (run_ops [OpAddOrder 0 3, OpAddOrder 1 5, OpAddOrder 2 3]
                             (NewEnhancedOrderQueue ''100.0'' 0)))) = [3, 5] \<and>
   map ID (orders (RemoveQty 9 3 (run_ops [OpAddOrder 0 3, OpAddOrder 1 5, OpAddOrder 2 3]
                             (NewEnhancedOrderQueue ''100.0'' 0)))) = [1, 2]"
proof -
  let ?q = "run_ops [OpAddOrder 0 3, OpAddOrder 1 5, OpAddOrder 2 3]
              (NewEnhancedOrderQueue ''100.0'' 0)"
  have h1: "(0::Decimal) < 3" by simp
  have h2: "\<exists>order \<in> set (orders ?q). Qty order = 3"
    by (simp add: run_ops_def NewEnhancedOrderQueue_def AddOrder_def)
  from RemoveQty_exact_match [OF h1 h2, of 9]
  obtain i where i: "i < length (orders ?q)"
      "\<forall>j. i < j \<and> j < length (orders ?q) \<longrightarrow> Qty (orders ?q ! j) \<noteq> 3"
      "orders (RemoveQty 9 3 ?q) = take i (orders ?q) @ drop (Suc i) (orders ?q)"
    by blast
  have os: "orders ?q = [\<lparr>ID = 1, Qty = 3, Timestamp = 0, Age = 0, IsPartial = False\<rparr>,
                         \<lparr>ID = 2, Qty = 5, Timestamp = 1, Age = 0, IsPartial = False\<rparr>,
                         \<lparr>ID = 3, Qty = 3, Timestamp = 2, Age = 0, IsPartial = False\<rparr>]"
    by (simp add: run_ops_def NewEnhancedOrderQueue_def AddOrder_def)
  have "i = 2"
  proof (rule ccontr)
    assume "i \<noteq> 2"
    with i(1) os have "i < 2" by simp
    with i(2) os show False by (auto dest: spec [of _ 2])
  qed
  with i(3) os show ?thesis by (simp add: numeral_2_eq_2)
qed

lemma all_positive_remove_at:
  "list_all P os \<Longrightarrow> list_all P (remove_at i os)"
  by (auto simp: list_all_iff remove_at_def dest: in_set_takeD in_set_dropD)

lemma all_positive_update:
  "list_all P os \<Longrightarrow> P x \<Longrightarrow> list_all P (os[i := x])"
  by (auto simp: list_all_iff dest!: set_update_subset_insert [THEN subsetD])

lemma removeFIFO_loop_all_positive:
  "all_positive eq \<Longrightarrow> all_positive (fst (removeFIFO_loop i eq r))"
  by (rule removeFIFO_loop_inv [where P = "\<lambda>eq r. all_positive eq"])
     (simp_all add: all_positive_def all_positive_remove_at all_positive_update)

lemma removeFromLargestOrders_all_positive:
  "all_positive eq \<Longrightarrow> all_positive (fst (removeFromLargestOrders eq r))"
  by (rule removeFromLargestOrders_inv [where P = "\<lambda>eq r. all_positive eq"])
     (simp_all add: all_positive_def all_positive_remove_at all_positive_update)

lemma RemoveQty_all_positive: "all_positive eq \<Longrightarrow> all_positive (RemoveQty now d eq)"
  using removeFIFO_loop_all_positive [of eq 0 d] removeFromLargestOrders_all_positive [of eq d]
  by (auto simp: RemoveQty_def removeFIFO_def all_positive_def all_positive_remove_at
           split: option.splits prod.splits)

lemma OptimizeQueue_all_positive: "all_positive (OptimizeQueue now eq)"
  by (simp add: OptimizeQueue_def Let_def all_positive_def list_all_iff)

lemma apply_op_all_positive:
  "all_positive eq \<Longrightarrow> positive_add op \<Longrightarrow> all_positive (apply_op op eq)"
proof (cases op)
  case (OpAddOrder now qty)
  then show "all_positive eq \<Longrightarrow> positive_add op \<Longrightarrow> all_positive (apply_op op eq)"
    by (simp add: AddOrder_def Let_def all_positive_def)
next
  case (OpRemoveQty now qty)
  then show "all_positive eq \<Longrightarrow> positive_add op \<Longrightarrow> all_positive (apply_op op eq)"
    by (simp add: RemoveQty_all_positive)
next
  case (OpUpdateAge now)
  then show "all_positive eq \<Longrightarrow> positive_add op \<Longrightarrow> all_positive (apply_op op eq)"
    by (simp add: UpdateAge_def all_positive_def list_all_iff)
next
  case (OpOptimizeQueue now)
  then show ?thesis by (simp add: OptimizeQueue_all_positive)
next
  case (OpClear now)
  then show ?thesis by (simp add: Clear_def all_positive_def)
qed


text \<open>
  Claim C6.  If a queue holds only orders with positive quantity and every order added from
  then on has a positive quantity, then after any sequence of operations (add, remove with
  any quantity, update of the ages, optimize, clear) every order in the queue still has a
  positive quantity: no order with quantity \<open>\<le> 0\<close> is left at an operation boundary.
\<close>

theorem no_nonpositive_order:
  assumes "all_positive eq" and "list_all positive_add ops"
  shows "\<forall>order \<in> set (orders (run_ops ops eq)). Qty order > 0"
proof -
  from assms have "all_positive (run_ops ops eq)"
    unfolding run_ops_def
    by (induction ops arbitrary: eq) (simp_all add: apply_op_all_positive)
  then show ?thesis by (simp add: all_positive_def list_all_iff)
qed

theorem no_nonpositive_order_witness:
  "list_all (\<lambda>order. Qty order > 0)
     (orders (run_ops [OpAddOrder 0 4, OpAddOrder 1 10, OpAddOrder 2 3, OpRemoveQty 3 2,
                       OpRemoveQty 4 9, OpOptimizeQueue 5] (NewEnhancedOrderQueue ''100.0'' 0))) \<and>
   map Qty (orders (run_ops [OpAddOrder 0 4, OpAddOrder 1 10, OpAddOrder 2 3, OpRemoveQty 3 2,
                       OpRemoveQty 4 9, OpOptimizeQueue 5] (NewEnhancedOrderQueue ''100.0'' 0)))
     = [2, 1, 3]"
proof -
  let ?ops = "[OpAddOrder 0 4, OpAddOrder 1 10, OpAddOrder 2 3, OpRemoveQty 3 2,
               OpRemoveQty 4 9, OpOptimizeQueue 5]"
  have h1: "all_positive (NewEnhancedOrderQueue ''100.0'' 0)"
    by (simp add: all_positive_def NewEnhancedOrderQueue_def)
  have h2: "list_all positive_add ?ops" by simp
  have v: "map Qty (orders (run_ops ?ops (NewEnhancedOrderQueue ''100.0'' 0))) = [2, 1, 3]"
    by (simp add: run_ops_def NewEnhancedOrderQueue_def AddOrder_def RemoveQty_def remove_at_def
          getLargestOrderQty_def getLargestOrderIndex_def Div_two_exact removeFIFO_def
          removeFIFO_loop.simps removeFromLargestOrders.simps OptimizeQueue_def Let_def
          upt_conv_Cons)
  from no_nonpositive_order [OF h1 h2] v show ?thesis by (simp add: list_all_iff)
qed

declare largest_first_spec.simps [simp del]

lemma largest_scan:
  assumes "0 < m" "m \<le> length os"
  shows "\<exists>i. fold (\<lambda>i (maxIdx, maxQty).
                if Qty (os ! i) > maxQty then (i, Qty (os ! i)) else (maxIdx, maxQty))
             [1..<m] (0, Qty (os ! 0)) = (i, Qty (os ! i)) \<and>
           i < m \<and> (\<forall>j < m. Qty (os ! j) \<le> Qty (os ! i)) \<and> (\<forall>j < i. Qty (os ! j) < Qty (os ! i))"
  using assms
proof (induction m)
  case 0
  then show ?case by simp
next
  case (Suc m)
  show ?case
  proof (cases "m = 0")
    case True
    then show ?thesis by simp
  next
    case False
    with Suc obtain i where i:
      "fold (\<lambda>i (maxIdx, maxQty).
                if Qty (os ! i) > maxQty then (i, Qty (os ! i)) else (maxIdx, maxQty))
             [1..<m] (0, Qty (os ! 0)) = (i, Qty (os ! i))"
      "i < m" "\<forall>j < m. Qty (os ! j) \<le> Qty (os ! i)" "\<forall>j < i. Qty (os ! j) < Qty (os ! i)"
      by auto
    from False have upt: "[1..<Suc m] = [1..<m] @ [m]" by simp
    show ?thesis
    proof (cases "Qty (os ! m) > Qty (os ! i)")
      case True
      with i show ?thesis
        unfolding upt
        by (intro exI [of _ m]) (auto simp: less_Suc_eq intro: le_less_trans less_imp_le dest: spec)
    next
      case False
      with i show ?thesis
        unfolding upt
        by (intro exI [of _ i]) (auto simp: less_Suc_eq)
    qed
  qed
qed

lemma getLargestOrderIndex_first_max:
  assumes "orders eq \<noteq> []"
  shows "\<exists>i. getLargestOrderIndex eq = Some i \<and> i < length (orders eq) \<and>
             Qty (orders eq ! i) = Max (Qty ` set (orders eq)) \<and>
             takeWhile (\<lambda>order. Qty order \<noteq> Max (Qty ` set (orders eq))) (orders eq) = take i (orders eq) \<and>
             dropWhile (\<lambda>order. Qty order \<noteq> Max (Qty ` set (orders eq))) (orders eq) = drop i (orders eq)"
proof -
  let ?os = "orders eq"
  let ?M = "Max (Qty ` set ?os)"
  from assms have "0 < length ?os" by simp
  from largest_scan [OF this le_refl] obtain i where i:
    "getLargestOrderIndex eq = Some i" "i < length ?os"
    "\<forall>j < length ?os. Qty (?os ! j) \<le> Qty (?os ! i)" "\<forall>j < i. Qty (?os ! j) < Qty (?os ! i)"
    using assms by (auto simp: getLargestOrderIndex_def)
  have M: "Qty (?os ! i) = ?M"
  proof (rule Max_eqI [symmetric])
    show "finite (Qty ` set ?os)" by simp
    show "Qty (?os ! i) \<in> Qty ` set ?os" using i(2) by simp
    fix y assume "y \<in> Qty ` set ?os"
    then show "y \<le> Qty (?os ! i)" using i(3) by (auto simp: in_set_conv_nth)
  qed
  have tw: "takeWhile (\<lambda>order. Qty order \<noteq> ?M) ?os = take i ?os"
    by (rule takeWhile_eq_take_P_nth) (use i(4) M in auto)
  have "dropWhile (\<lambda>order. Qty order \<noteq> ?M) ?os = drop i ?os"
    using tw i(2) by (simp add: dropWhile_eq_drop)
  with i M tw show ?thesis by blast
qed

lemma getLargestOrderQty_Max:
  "orders eq \<noteq> [] \<Longrightarrow> getLargestOrderQty eq = Max (Qty ` set (orders eq))"
  using getLargestOrderIndex_first_max [of eq] by (auto simp: getLargestOrderQty_def)

lemma removeFromLargestOrders_spec:
  "orders (fst (removeFromLargestOrders eq r)) = largest_first_spec r (orders eq)"
proof (induction eq r rule: removeFromLargestOrders.induct)
  case (1 eq remaining)
  show ?case
  proof (cases "remaining > 0 \<and> length (orders eq) > 0")
    case False
    then show ?thesis
      by (subst removeFromLargestOrders.simps, subst largest_first_spec.simps) auto
  next
    case True
    then have ne: "orders eq \<noteq> []" by simp
    from getLargestOrderIndex_first_max [OF ne] obtain i where i:
      "getLargestOrderIndex eq = Some i" "i < length (orders eq)"
      "Qty (orders eq ! i) = Max (Qty ` set (orders eq))"
      "takeWhile (\<lambda>order. Qty order \<noteq> Max (Qty ` set (orders eq))) (orders eq) = take i (orders eq)"
      "dropWhile (\<lambda>order. Qty order \<noteq> Max (Qty ` set (orders eq))) (orders eq) = drop i (orders eq)"
      by blast
    from i(2) have hd: "hd (drop i (orders eq)) = orders eq ! i"
      by (simp add: hd_drop_conv_nth)
    have tl: "tl (drop i (orders eq)) = drop (Suc i) (orders eq)"
      by (simp add: drop_Suc tl_drop)
    note M = i(3) [symmetric]
    have tw: "takeWhile (\<lambda>order. Qty order \<noteq> Qty (orders eq ! i)) (orders eq) = take i (orders eq)"
      using i(3,4) by simp
    have dw: "dropWhile (\<lambda>order. Qty order \<noteq> Qty (orders eq ! i)) (orders eq) = drop i (orders eq)"
      using i(3,5) by simp
    show ?thesis
    proof (cases "Qty (orders eq ! i) \<le> remaining")
      case le: True
      have lhs: "removeFromLargestOrders eq remaining =
          removeFromLargestOrders
            (eq\<lparr>totalQty := totalQty eq - Qty (orders eq ! i), orders := remove_at i (orders eq)\<rparr>)
            (remaining - Qty (orders eq ! i))"
        using True i(1) le by (subst removeFromLargestOrders.simps) (simp add: Let_def)
      have rhs: "largest_first_spec remaining (orders eq) =
          largest_first_spec (remaining - Qty (orders eq ! i)) (remove_at i (orders eq))"
        using True ne le
        by (subst largest_first_spec.simps) (simp add: Let_def M tw dw hd tl remove_at_def)
      from "1.IH"(1) [OF True i(1) refl le] show ?thesis
        unfolding lhs rhs by simp
    next
      case gt: False
      have stop: "removeFromLargestOrders q 0 = (q, 0)" for q
        by (subst removeFromLargestOrders.simps) simp
      have lhs: "removeFromLargestOrders eq remaining =
          (eq\<lparr>orders := (orders eq)[i := (orders eq ! i)\<lparr>Qty := Qty (orders eq ! i) - remaining,
                                                         IsPartial := True\<rparr>],
              totalQty := totalQty eq - remaining\<rparr>, 0)"
        using True i(1) gt by (subst removeFromLargestOrders.simps) (simp add: Let_def stop)
      have rhs: "largest_first_spec remaining (orders eq) =
          take i (orders eq) @ (orders eq ! i)\<lparr>Qty := Qty (orders eq ! i) - remaining,
                                                IsPartial := True\<rparr> # drop (Suc i) (orders eq)"
        using True ne gt
        by (subst largest_first_spec.simps) (simp add: Let_def M tw dw hd tl)
      from i(2) show ?thesis
        unfolding lhs rhs by (simp add: upd_conv_take_nth_drop)
    qed
  qed
qed

lemma removeFIFO_loop_stop: "removeFIFO_loop i eq 0 = (eq, 0)"
  by (subst removeFIFO_loop.simps) simp

lemma removeFIFO_spec:
  "orders eq = os \<Longrightarrow> orders (fst (removeFIFO eq r)) = fifo_spec r os"
  unfolding removeFIFO_def
proof (induction os arbitrary: eq r)
  case Nil
  then show ?case by (subst removeFIFO_loop.simps) simp
next
  case (Cons x xs)
  show ?case
  proof (cases "r > 0")
    case False
    with Cons.prems show ?thesis by (subst removeFIFO_loop.simps) simp
  next
    case True
    show ?thesis
    proof (cases "Qty x \<le> r")
      case le: True
      have "orders (eq\<lparr>totalQty := totalQty eq - Qty x, orders := remove_at 0 (orders eq)\<rparr>) = xs"
        using Cons.prems by (simp add: remove_at_def)
      from Cons.IH [OF this] True le Cons.prems show ?thesis
        by (subst removeFIFO_loop.simps) (simp add: Let_def)
    next
      case gt: False
      with True Cons.prems show ?thesis
        by (subst removeFIFO_loop.simps) (simp add: Let_def removeFIFO_loop_stop)
    qed
  qed
qed


lemma tinyQueue_orders:
  "orders tinyQueue =
     [\<lparr>ID = 1, Qty = 1 / 10 ^ 16, Timestamp = 0, Age = 0, IsPartial = False\<rparr>,
      \<lparr>ID = 2, Qty = 3 / 10 ^ 16, Timestamp = 1, Age = 0, IsPartial = False\<rparr>]"
  by (simp add: tinyQueue_def run_ops_def NewEnhancedOrderQueue_def AddOrder_def)

lemma Div_tiny: "Div (3 / 10 ^ 16) 2 = 2 / 10 ^ 16"
  by (simp add: Div_def DivisionPrecision_def round_half_away_def)

text \<open>
  Claim C3, as stated, compares \<open>diff\<close> with the exact half of the largest quantity.  The
  code compares it with the result of \<^verbatim>\<open>Div\<close>, the half rounded to 16 decimal places.  On
  the queue with the orders \<open>0.0000000000000001\<close> and \<open>0.0000000000000003\<close> and
  \<open>diff = 0.00000000000000018\<close> the queue is not empty, \<open>diff\<close> is positive, no order equals
  \<open>diff\<close>, and \<open>diff\<close> exceeds the exact half \<open>0.00000000000000015\<close> of the largest order,
  so the claim calls for largest-first, which would leave the quantities
  \<open>0.0000000000000001\<close> and \<open>0.00000000000000012\<close>.  The rounded half is
  \<open>0.0000000000000002\<close>, which \<open>diff\<close> does not exceed: the code runs first-in-first-out
  and leaves the single order \<open>0.00000000000000022\<close>, marked partial.
\<close>

theorem RemoveQty_rounded_half_counterexample:
  "orders tinyQueue \<noteq> [] \<and> (0::Decimal) < 18 / 10 ^ 17 \<and>
   18 / 10 ^ 17 \<notin> Qty ` set (orders tinyQueue) \<and>
   18 / 10 ^ 17 > Max (Qty ` set (orders tinyQueue)) / 2 \<and>
   map Qty (largest_first_spec (18 / 10 ^ 17) (orders tinyQueue)) = [1 / 10 ^ 16, 12 / 10 ^ 17] \<and>
   map Qty (orders (RemoveQty 9 (18 / 10 ^ 17) tinyQueue)) = [22 / 10 ^ 17] \<and>
   map IsPartial (orders (RemoveQty 9 (18 / 10 ^ 17) tinyQueue)) = [True]"
proof -
  have spec: "map Qty (largest_first_spec (18 / 10 ^ 17) (orders tinyQueue)) =
                [1 / 10 ^ 16, 12 / 10 ^ 17]"
    unfolding tinyQueue_orders by (subst largest_first_spec.simps) (simp add: Let_def)
  have largest: "getLargestOrderQty tinyQueue = 3 / 10 ^ 16"
    by (simp add: getLargestOrderQty_def getLargestOrderIndex_def tinyQueue_orders)
  have fifo: "\<not> 18 / 10 ^ 17 > Div (getLargestOrderQty tinyQueue) 2"
    unfolding largest Div_tiny by simp
  have none: "exactMatch (orders tinyQueue) (18 / 10 ^ 17) (length (orders tinyQueue)) = None"
    by (simp add: tinyQueue_orders)
  have "orders (RemoveQty 9 (18 / 10 ^ 17) tinyQueue) =
          orders (fst (removeFIFO tinyQueue (18 / 10 ^ 17)))"
    using fifo none by (simp add: RemoveQty_def split: prod.splits)
  also have "\<dots> = [\<lparr>ID = 2, Qty = 22 / 10 ^ 17, Timestamp = 1, Age = 0, IsPartial = True\<rparr>]"
    by (simp add: removeFIFO_def removeFIFO_loop.simps tinyQueue_orders remove_at_def Let_def)
  finally have code: "orders (RemoveQty 9 (18 / 10 ^ 17) tinyQueue) =
                [\<lparr>ID = 2, Qty = 22 / 10 ^ 17, Timestamp = 1, Age = 0, IsPartial = True\<rparr>]" .
  have h1: "orders tinyQueue \<noteq> []" by (simp add: tinyQueue_orders)
  have h2: "(0::Decimal) < 18 / 10 ^ 17" by simp
  have h3: "18 / 10 ^ 17 \<notin> Qty ` set (orders tinyQueue)" by (simp add: tinyQueue_orders)
  have h4: "18 / 10 ^ 17 > Max (Qty ` set (orders tinyQueue)) / 2"
    by (simp add: tinyQueue_orders)
  have c1: "map Qty (orders (RemoveQty 9 (18 / 10 ^ 17) tinyQueue)) = [22 / 10 ^ 17]"
    unfolding code by simp
  have c2: "map IsPartial (orders (RemoveQty 9 (18 / 10 ^ 17) tinyQueue)) = [True]"
    unfolding code by simp
  from h1 h2 h3 h4 spec c1 c2 show ?thesis by blast
qed

text \<open>
  Claim C3, amended.  For a non-empty queue, a positive \<open>diff\<close> and no order whose quantity
  equals \<open>diff\<close>: if \<open>diff\<close> exceeds the half of the largest quantity as \<^verbatim>\<open>Div\<close> computes it
  (rounded to 16 decimal places, a half away from zero; by \<open>Div_two_exact\<close> it is the exact
  half when the largest quantity has at most 15 decimals), \<^verbatim>\<open>RemoveQty\<close> leaves the order
  sequence that the largest-first strategy describes (the largest order, first occurrence on
  ties, is reduced and marked partial when it exceeds the remaining \<open>diff\<close> and is removed
  otherwise, repeatedly, until \<open>diff\<close> is exhausted or the queue is empty); otherwise it
  leaves the sequence that the first-in-first-out strategy describes (whole orders are
  consumed from the front while their quantity is at most the remaining \<open>diff\<close>, and the
  first order that exceeds it absorbs the remainder and is marked partial).
\<close>

theorem RemoveQty_no_exact_match:
  assumes "orders eq \<noteq> []" and "0 < diff" and "\<forall>order \<in> set (orders eq). Qty order \<noteq> diff"
  shows "orders (RemoveQty now diff eq) =
           (if diff > Div (Max (Qty ` set (orders eq))) 2
            then largest_first_spec diff (orders eq)
            else fifo_spec diff (orders eq))"
proof -
  from assms(3) have "exactMatch (orders eq) diff (length (orders eq)) = None"
    by (simp add: exactMatch_None)
  with assms(1,2) show ?thesis
    by (simp add: RemoveQty_def getLargestOrderQty_Max removeFromLargestOrders_spec
          removeFIFO_spec split: prod.splits)
       (metis fst_conv removeFromLargestOrders_spec removeFIFO_spec)
qed

theorem RemoveQty_no_exact_match_witness:
  "map (\<lambda>order. (Qty order, IsPartial order))
     (orders (RemoveQty 9 8 (run_ops [OpAddOrder 0 2, OpAddOrder 1 10, OpAddOrder 2 3]
                              (NewEnhancedOrderQueue ''100.0'' 0)))) =
     [(2, False), (2, True), (3, False)]"
proof -
  let ?q = "run_ops [OpAddOrder 0 2, OpAddOrder 1 10, OpAddOrder 2 3]
              (NewEnhancedOrderQueue ''100.0'' 0)"
  have os: "orders ?q = [\<lparr>ID = 1, Qty = 2, Timestamp = 0, Age = 0, IsPartial = False\<rparr>,
                         \<lparr>ID = 2, Qty = 10, Timestamp = 1, Age = 0, IsPartial = False\<rparr>,
                         \<lparr>ID = 3, Qty = 3, Timestamp = 2, Age = 0, IsPartial = False\<rparr>]"
    by (simp add: run_ops_def NewEnhancedOrderQueue_def AddOrder_def)
  have h1: "orders ?q \<noteq> []" by (simp add: os)
  have h2: "(0::Decimal) < 8" by simp
  have h3: "\<forall>order \<in> set (orders ?q). Qty order \<noteq> 8" by (simp add: os)
  have "orders (RemoveQty 9 8 ?q) = largest_first_spec 8 (orders ?q)"
    using RemoveQty_no_exact_match [OF h1 h2 h3, of 9] by (simp add: os Div_two_exact)
  also have "\<dots> = [\<lparr>ID = 1, Qty = 2, Timestamp = 0, Age = 0, IsPartial = False\<rparr>,
                     \<lparr>ID = 2, Qty = 2, Timestamp = 1, Age = 0, IsPartial = True\<rparr>,
                     \<lparr>ID = 3, Qty = 3, Timestamp = 2, Age = 0, IsPartial = False\<rparr>]"
    unfolding os by (subst largest_first_spec.simps) (simp add: Let_def)
  finally show ?thesis by simp
qed

text \<open>
  Two runs of the first-in-first-out strategy.  In the first the front order absorbs the
  whole \<open>diff\<close>.  In the second the two front orders use up \<open>diff\<close> exactly: the loop stops
  and the order behind them keeps its quantity and is not marked partial.
\<close>

lemma RemoveQty_fifo_example:
  "map (\<lambda>order. (Qty order, IsPartial order))
     (orders (RemoveQty 9 2 (run_ops [OpAddOrder 0 4, OpAddOrder 1 10, OpAddOrder 2 3]
                              (NewEnhancedOrderQueue ''100.0'' 0)))) =
     [(2, True), (10, False), (3, False)]"
  by (simp add: run_ops_def NewEnhancedOrderQueue_def AddOrder_def RemoveQty_def remove_at_def
        getLargestOrderQty_def getLargestOrderIndex_def Div_two_exact removeFIFO_def
        removeFIFO_loop.simps Let_def upt_conv_Cons)

lemma RemoveQty_fifo_exhausted_example:
  "map (\<lambda>order. (Qty order, IsPartial order))
     (orders (RemoveQty 9 5 (run_ops [OpAddOrder 0 2, OpAddOrder 1 3, OpAddOrder 2 20]
                              (NewEnhancedOrderQueue ''100.0'' 0)))) =
     [(20, False)]"
  by (simp add: run_ops_def NewEnhancedOrderQueue_def AddOrder_def RemoveQty_def remove_at_def
        getLargestOrderQty_def getLargestOrderIndex_def Div_two_exact removeFIFO_def
        removeFIFO_loop.simps Let_def upt_conv_Cons)

section \<open>Properties of the order book\<close>

lemma removeFromLargestOrders_exit:
  "snd (removeFromLargestOrders eq r) \<le> 0 \<or> orders (fst (removeFromLargestOrders eq r)) = []"
proof (induction eq r rule: removeFromLargestOrders.induct)
  case (1 eq remaining)
  show ?case
  proof (cases "remaining > 0 \<and> length (orders eq) > 0")
    case False
    then show ?thesis by (subst (1 2) removeFromLargestOrders.simps) auto
  next
    case True
    then obtain idx where idx: "getLargestOrderIndex eq = Some idx"
      by (auto simp: getLargestOrderIndex_def)
    show ?thesis
    proof (cases "Qty (orders eq ! idx) \<le> remaining")
      case le: True
      from "1.IH"(1) [OF True idx refl le] True le idx show ?thesis
        by (subst (1 2) removeFromLargestOrders.simps) (simp add: Let_def)
    next
      case gt: False
      from "1.IH"(2) [OF True idx refl gt] True gt idx show ?thesis
        by (subst (1 2) removeFromLargestOrders.simps) (simp add: Let_def)
    qed
  qed
qed

lemma removeFIFO_exit:
  "orders eq = os \<Longrightarrow> snd (removeFIFO eq r) \<le> 0 \<or> orders (fst (removeFIFO eq r)) = []"
  unfolding removeFIFO_def
proof (induction os arbitrary: eq r)
  case Nil
  then show ?case by (subst (1 2) removeFIFO_loop.simps) simp
next
  case (Cons x xs)
  show ?case
  proof (cases "r > 0")
    case False
    with Cons.prems show ?thesis by (subst (1 2) removeFIFO_loop.simps) simp
  next
    case True
    show ?thesis
    proof (cases "Qty x \<le> r")
      case le: True
      have "orders (eq\<lparr>totalQty := totalQty eq - Qty x, orders := remove_at 0 (orders eq)\<rparr>) = xs"
        using Cons.prems by (simp add: remove_at_def)
      from Cons.IH [OF this] True le Cons.prems show ?thesis
        by (subst (1 2) removeFIFO_loop.simps) (simp add: Let_def)
    next
      case gt: False
      with True Cons.prems show ?thesis
        by (subst (1 2) removeFIFO_loop.simps) (simp add: Let_def removeFIFO_loop_stop)
    qed
  qed
qed

lemma removeFIFO_loop_conserves:
  "0 \<le> r \<Longrightarrow>
   totalQty (fst (removeFIFO_loop i eq r)) - snd (removeFIFO_loop i eq r) = totalQty eq - r \<and>
   0 \<le> snd (removeFIFO_loop i eq r)"
  by (rule removeFIFO_loop_inv [where P = "\<lambda>eq' r'. totalQty eq' - r' = totalQty eq - r \<and> 0 \<le> r'"])
     simp_all

lemma removeFromLargestOrders_conserves:
  "0 \<le> r \<Longrightarrow>
   totalQty (fst (removeFromLargestOrders eq r)) - snd (removeFromLargestOrders eq r) = totalQty eq - r \<and>
   0 \<le> snd (removeFromLargestOrders eq r)"
  by (rule removeFromLargestOrders_inv
        [where P = "\<lambda>eq' r'. totalQty eq' - r' = totalQty eq - r \<and> 0 \<le> r'"])
     simp_all

lemma RemoveQty_total:
  assumes "total_ok eq" and "0 < diff" and "diff < totalQty eq"
  shows "totalQty (RemoveQty now diff eq) = totalQty eq - diff"
proof (cases "exactMatch (orders eq) diff (length (orders eq))")
  case (Some i)
  with assms(2) exactMatch_Some [OF Some] show ?thesis by (simp add: RemoveQty_def)
next
  case None
  define res where "res = (if diff > Div (getLargestOrderQty eq) 2
                           then removeFromLargestOrders eq diff else removeFIFO eq diff)"
  have cons: "totalQty (fst res) - snd res = totalQty eq - diff" "0 \<le> snd res"
    using assms(2) removeFIFO_loop_conserves [of diff 0 eq]
      removeFromLargestOrders_conserves [of diff eq]
    by (simp_all add: res_def removeFIFO_def)
  have ok: "total_ok (fst res)"
    using assms(1) by (simp add: res_def removeFIFO_def removeFIFO_loop_total_ok
        removeFromLargestOrders_total_ok)
  have exit: "snd res \<le> 0 \<or> orders (fst res) = []"
    using removeFIFO_exit [OF refl, of eq diff] removeFromLargestOrders_exit [of eq diff]
    by (simp add: res_def)
  have "snd res = 0"
  proof (rule ccontr)
    assume "snd res \<noteq> 0"
    with cons(2) exit have "orders (fst res) = []" by auto
    with ok have "totalQty (fst res) = 0" by (simp add: total_ok_def sum_qty_def)
    with cons assms(3) show False by simp
  qed
  with cons(1) have "totalQty (fst res) = totalQty eq - diff" by simp
  moreover have "RemoveQty now diff eq = (fst res)\<lparr>lastUpdate := now\<rparr>"
    using None assms(2) by (simp add: RemoveQty_def res_def split: prod.splits)
  ultimately show ?thesis by simp
qed

lemma OptimizeQueue_UpdateAge_total:
  assumes "total_ok eq" and "all_positive eq"
  shows "totalQty (OptimizeQueue now (UpdateAge now' eq)) = totalQty eq"
proof -
  have "filter (\<lambda>order. Qty order > 0) (orders (UpdateAge now' eq)) = orders (UpdateAge now' eq)"
    using assms(2) by (simp add: UpdateAge_def all_positive_def list_all_iff)
  then have "totalQty (OptimizeQueue now (UpdateAge now' eq)) = sum_qty (orders (UpdateAge now' eq))"
    by (simp add: OptimizeQueue_def Let_def fold_add_qty)
  also have "\<dots> = sum_qty (orders eq)" by (simp add: UpdateAge_def sum_qty_def comp_def)
  finally show ?thesis using assms(1) by (simp add: total_ok_def)
qed

lemma map_of_map_values:
  "map_of (map (\<lambda>(k, v). (k, f v)) m) k = map_option f (map_of m k)"
  by (induction m) auto

lemma enhancedSide_optimizeAllQueues:
  "map_of (enhancedSide isBid (optimizeAllQueues now ob)) price =
     map_option (\<lambda>queue. OptimizeQueue now (UpdateAge now queue)) (map_of (enhancedSide isBid ob) price)"
  by (simp add: enhancedSide_def optimizeAllQueues_def map_of_map_values)

lemma enhancedSide_setEnhancedSide [simp]:
  "enhancedSide isBid (setEnhancedSide isBid m ob) = m"
  by (simp add: enhancedSide_def setEnhancedSide_def)

lemma lastOptimization_setEnhancedSide [simp]:
  "lastOptimization (setEnhancedSide isBid m ob) = lastOptimization ob"
  by (simp add: setEnhancedSide_def)

lemma updateEnhancedQueue_total:
  assumes "0 < newQty"
    and "\<And>queue. map_of (enhancedSide isBid ob) price = Some queue \<Longrightarrow>
            total_ok queue \<and> all_positive queue"
  shows "\<exists>queue'. map_of (enhancedSide isBid (updateEnhancedQueue now isBid price newQty ob)) price
                     = Some queue' \<and> totalQty queue' = newQty"
proof (cases "map_of (enhancedSide isBid ob) price")
  case None
  then show ?thesis
    by (simp add: updateEnhancedQueue_def update_conv' AddOrder_def NewEnhancedOrderQueue_def)
next
  case (Some queue)
  from assms(2) [OF Some] have ok: "total_ok queue" and pos: "all_positive queue" by simp_all
  define queue' where "queue' =
     (if newQty > totalQty queue then AddOrder now (newQty - totalQty queue) queue
      else if newQty < totalQty queue then RemoveQty now (totalQty queue - newQty) queue
      else queue)"
  have ok': "total_ok queue'"
    using ok by (simp add: queue'_def AddOrder_total_ok RemoveQty_total_ok)
  have pos': "all_positive queue'"
    using pos RemoveQty_all_positive [OF pos]
    by (simp add: queue'_def AddOrder_def Let_def all_positive_def)
  have tot: "totalQty queue' = newQty"
    using RemoveQty_total [OF ok, of "totalQty queue - newQty" now] assms(1)
    by (simp add: queue'_def AddOrder_def)
  show ?thesis
    using Some tot OptimizeQueue_UpdateAge_total [OF ok' pos']
    by (simp add: updateEnhancedQueue_def Let_def GetTotalQty_def queue'_def [symmetric]
          enhancedSide_optimizeAllQueues update_conv')
qed


lemma oneLevelBook_eval:
  "oneLevelBook =
     \<lparr>bids = [(''100'', [5])], asks = [],
      enhancedBids = [(''100'', \<lparr>orders = [\<lparr>ID = 1, Qty = 5, Timestamp = 0, Age = 0, IsPartial = False\<rparr>],
                                 totalQty = 5, nextOrderID = 2, priceLevel = ''100'',
                                 lastUpdate = 0\<rparr>)],
      enhancedAsks = [], symbol = ''ag2510'', lastID = 1, kmeansMode = False, numClusters = 10,
      useEnhancedMode = True, lastOptimization = 0\<rparr>"
  by (simp add: oneLevelBook_def loadSnapshot_def loadLevel_def NewL3OrderBook_def
        sampleNewFromString_def legacySide_def setLegacySide_def enhancedSide_def
        setEnhancedSide_def AddOrder_def NewEnhancedOrderQueue_def Let_def)

text \<open>
  Three updates in a row on the bid level \<open>100\<close>: a fresh level of \<open>5\<close>, growth to \<open>8\<close>
  (a second order of \<open>3\<close> joins the queue), and a decrease to \<open>5\<close> (the order of \<open>3\<close> is an
  exact match and is cancelled).
\<close>

lemma applyDelta_scenarios_1_2_3:
  "map (\<lambda>(price, queue). (price, map Qty (orders queue), totalQty queue))
     (enhancedBids (projr (applyDelta sampleNewFromString 1
        \<lparr>upd_U = 2, upd_u = 2, upd_B = [ [''100'', ''5''] ], upd_A = []\<rparr>
        (NewL3OrderBook ''ag2510'' 0)))) = [(''100'', [5], 5)]"
  "map (\<lambda>(price, queue). (price, map Qty (orders queue), totalQty queue))
     (enhancedBids (projr (applyDelta sampleNewFromString 2
        \<lparr>upd_U = 3, upd_u = 3, upd_B = [ [''100'', ''8''] ], upd_A = []\<rparr> oneLevelBook))) =
     [(''100'', [5, 3], 8)]"
  "map (\<lambda>(price, queue). (price, map Qty (orders queue), totalQty queue))
     (enhancedBids (projr (applyDelta sampleNewFromString 3
        \<lparr>upd_U = 4, upd_u = 4, upd_B = [ [''100'', ''5''] ], upd_A = []\<rparr>
        (projr (applyDelta sampleNewFromString 2
           \<lparr>upd_U = 3, upd_u = 3, upd_B = [ [''100'', ''8''] ], upd_A = []\<rparr> oneLevelBook))))) =
     [(''100'', [5], 5)]"
  by (simp_all add: oneLevelBook_eval NewL3OrderBook_def applyDelta_def applySide_def
        applyLevel_def sampleNewFromString_def legacySide_def setLegacySide_def enhancedSide_def
        setEnhancedSide_def updateQueue_def updateEnhancedQueue_def firstPrice_def sum_oq_def
        largestOrderIndex_def GetTotalQty_def AddOrder_def RemoveQty_def remove_at_def
        NewEnhancedOrderQueue_def Let_def)

text \<open>
  Claim C2, as stated, fails for an entry whose quantity parses to a negative value, which
  is non-zero: on the level \<open>100\<close> holding one order of \<open>5\<close>, the entry \<open>(100, -3)\<close> asks
  \<^verbatim>\<open>RemoveQty\<close> for \<open>8\<close>, the queue is emptied, and its total is \<open>0\<close> and not \<open>-3\<close>.
\<close>

theorem applyLevel_negative_qty_counterexample:
  "sampleNewFromString ''-3'' = Some (-3) \<and>
   map_option totalQty
     (map_of (enhancedBids (applyLevel sampleNewFromString 1 True [''100'', ''-3''] oneLevelBook))
        ''100'') = Some 0 \<and>
   map_option totalQty
     (map_of (enhancedBids (applyLevel sampleNewFromString 1 True [''100'', ''-3''] oneLevelBook))
        ''100'') \<noteq> Some (-3)"
  by (simp add: oneLevelBook_eval applyLevel_def sampleNewFromString_def legacySide_def
        setLegacySide_def enhancedSide_def setEnhancedSide_def updateQueue_def sum_oq_def
        largestOrderIndex_def updateEnhancedQueue_def GetTotalQty_def RemoveQty_def
        getLargestOrderQty_def getLargestOrderIndex_def Div_two_exact removeFromLargestOrders.simps
        remove_at_def Let_def)

text \<open>
  Claim C2, amended.  After one entry \<open>(price, qty)\<close> of an update has been processed, where
  \<open>qty\<close> parses to a positive value and the queue that the level already has, if any, is
  well formed (its cached total is the sum of its order quantities and these are all
  positive), the enhanced queue at that price exists and its total equals the parsed
  quantity, whether the level was new, grew, shrank or kept its quantity.
\<close>

theorem applyLevel_sets_total:
  assumes "NewFromString qtyStr = Some newQty" and "0 < newQty" and "useEnhancedMode ob"
    and "\<forall>queue. map_of (enhancedSide isBid ob) price = Some queue \<longrightarrow>
            totalQty queue = sum_list (map Qty (orders queue)) \<and>
            (\<forall>order \<in> set (orders queue). Qty order > 0)"
  shows "\<exists>queue'.
           map_of (enhancedSide isBid
                     (applyLevel NewFromString now isBid (price # qtyStr # extra) ob)) price
             = Some queue' \<and>
           totalQty queue' = newQty"
proof -
  let ?ob1 = "setLegacySide isBid (updateQueue price newQty (legacySide isBid ob)) ob"
  have e: "enhancedSide isBid ?ob1 = enhancedSide isBid ob" "useEnhancedMode ?ob1"
    using assms(3) by (simp_all add: enhancedSide_def setLegacySide_def)
  have "\<And>queue. map_of (enhancedSide isBid ?ob1) price = Some queue \<Longrightarrow>
            total_ok queue \<and> all_positive queue"
    using assms(4) unfolding e by (simp add: total_ok_def all_positive_def sum_qty_def list_all_iff)
  from updateEnhancedQueue_total [OF assms(2) this, where now = now] assms(1,2) e(2)
  show ?thesis by (simp add: applyLevel_def Let_def)
qed

theorem applyLevel_sets_total_witness:
  "map_option totalQty
     (map_of (enhancedSide True (applyLevel sampleNewFromString 1 True [''100'', ''8''] oneLevelBook))
        ''100'') = Some 8"
proof -
  have h1: "sampleNewFromString ''8'' = Some 8" by (simp add: sampleNewFromString_def)
  have h2: "(0::Decimal) < 8" by simp
  have h3: "useEnhancedMode oneLevelBook" by (simp add: oneLevelBook_eval)
  have h4: "\<forall>queue. map_of (enhancedSide True oneLevelBook) ''100'' = Some queue \<longrightarrow>
       totalQty queue = sum_list (map Qty (orders queue)) \<and>
       (\<forall>order \<in> set (orders queue). Qty order > 0)"
    by (auto simp: oneLevelBook_eval enhancedSide_def)
  from applyLevel_sets_total
         [where NewFromString = sampleNewFromString and qtyStr = "''8''" and newQty = 8
            and ob = oneLevelBook and isBid = True and price = "''100''" and now = 1
            and extra = "[]", OF h1 h2 h3 h4]
  show ?thesis by auto
qed

text \<open>
  The hypothesis on the queue in the theorem above holds on every book that was loaded and
  updated with non-negative quantities only: well-formedness is established by
  \<^verbatim>\<open>loadSnapshot\<close> and preserved by \<^verbatim>\<open>applyDelta\<close>.
\<close>

lemma list_all_update:
  "list_all (\<lambda>(k, v). P v) m \<Longrightarrow> P v \<Longrightarrow> list_all (\<lambda>(k, v). P v) (AList.update k v m)"
  by (induction m) auto

lemma list_all_delete:
  "list_all (\<lambda>(k, v). P v) m \<Longrightarrow> list_all (\<lambda>(k, v). P v) (AList.delete k m)"
  by (induction m) auto

lemma list_all_map_of:
  "list_all (\<lambda>(k, v). P v) m \<Longrightarrow> map_of m k = Some v \<Longrightarrow> P v"
  by (induction m) (auto split: if_splits)

lemma wf_queue_new_order: "0 < qty \<Longrightarrow> wf_queue (AddOrder now qty (NewEnhancedOrderQueue price now'))"
  by (simp add: wf_queue_def total_ok_def all_positive_def AddOrder_def NewEnhancedOrderQueue_def
        sum_qty_def)

lemma wf_queue_AddOrder: "wf_queue eq \<Longrightarrow> 0 < qty \<Longrightarrow> wf_queue (AddOrder now qty eq)"
  by (simp add: wf_queue_def AddOrder_total_ok) (simp add: AddOrder_def all_positive_def)

lemma wf_queue_RemoveQty: "wf_queue eq \<Longrightarrow> wf_queue (RemoveQty now qty eq)"
  by (simp add: wf_queue_def RemoveQty_total_ok RemoveQty_all_positive)

lemma wf_queue_optimize: "wf_queue (OptimizeQueue now (UpdateAge now' eq))"
  by (simp add: wf_queue_def OptimizeQueue_total_ok OptimizeQueue_all_positive)

lemma wf_book_optimizeAllQueues: "useEnhancedMode ob \<Longrightarrow> wf_book (optimizeAllQueues now ob)"
  by (simp add: wf_book_def optimizeAllQueues_def list_all_iff wf_queue_optimize case_prod_beta)

lemma wf_book_sides:
  "wf_book ob \<longleftrightarrow> useEnhancedMode ob \<and>
     (\<forall>isBid. list_all (\<lambda>(price, queue). wf_queue queue) (enhancedSide isBid ob))"
  by (auto simp: wf_book_def enhancedSide_def)

lemma wf_book_setEnhancedSide:
  "wf_book ob \<Longrightarrow> list_all (\<lambda>(price, queue). wf_queue queue) m \<Longrightarrow>
     wf_book (setEnhancedSide isBid m ob)"
  by (simp add: wf_book_def setEnhancedSide_def)

lemma wf_book_setLegacySide: "wf_book ob \<Longrightarrow> wf_book (setLegacySide isBid m ob)"
  by (simp add: wf_book_def setLegacySide_def)

lemma wf_book_updateEnhancedQueue:
  assumes "wf_book ob" and "0 < newQty"
  shows "wf_book (updateEnhancedQueue now isBid price newQty ob)"
proof (cases "map_of (enhancedSide isBid ob) price")
  case None
  with assms show ?thesis
    by (simp add: updateEnhancedQueue_def wf_book_setEnhancedSide list_all_update
          wf_queue_new_order wf_book_sides [THEN iffD1])
next
  case (Some queue)
  from assms(1) have all: "list_all (\<lambda>(price, queue). wf_queue queue) (enhancedSide isBid ob)"
    by (simp add: wf_book_sides)
  from list_all_map_of [OF all Some] have q: "wf_queue queue" .
  define queue' where "queue' =
     (if newQty > totalQty queue then AddOrder now (newQty - totalQty queue) queue
      else if newQty < totalQty queue then RemoveQty now (totalQty queue - newQty) queue
      else queue)"
  have "wf_queue queue'"
    using q by (simp add: queue'_def wf_queue_AddOrder wf_queue_RemoveQty)
  with all have "wf_book (setEnhancedSide isBid (AList.update price queue' (enhancedSide isBid ob)) ob)"
    by (intro wf_book_setEnhancedSide assms(1) list_all_update)
  moreover from this have
    "wf_book (optimizeAllQueues now
       (setEnhancedSide isBid (AList.update price queue' (enhancedSide isBid ob)) ob))"
    by (intro wf_book_optimizeAllQueues) (simp add: wf_book_def)
  ultimately show ?thesis
    using Some by (simp add: updateEnhancedQueue_def Let_def GetTotalQty_def queue'_def [symmetric])
qed

lemma wf_book_applyLevel:
  assumes "wf_book ob" and "nonnegative_entry NewFromString bid"
  shows "wf_book (applyLevel NewFromString now isBid bid ob)"
proof (cases "length bid < 2")
  case True
  with assms show ?thesis by (simp add: applyLevel_def)
next
  case False
  then obtain price qtyStr extra where bid: "bid = price # qtyStr # extra"
    by (cases bid; cases "tl bid") auto
  show ?thesis
  proof (cases "NewFromString qtyStr")
    case None
    with assms bid show ?thesis by (simp add: applyLevel_def)
  next
    case (Some newQty)
    with assms(2) bid have nn: "0 \<le> newQty" by simp
    show ?thesis
    proof (cases "newQty = 0")
      case True
      have "wf_book (setEnhancedSide isBid (AList.delete price (enhancedSide isBid ob')) ob')"
        if "wf_book ob'" for ob'
        using that by (intro wf_book_setEnhancedSide list_all_delete) (simp_all add: wf_book_sides)
      with assms(1) bid Some True show ?thesis
        by (simp add: applyLevel_def Let_def wf_book_setLegacySide)
    next
      case False
      with nn have "0 < newQty" by simp
      with assms(1) bid Some False show ?thesis
        by (simp add: applyLevel_def Let_def wf_book_setLegacySide wf_book_updateEnhancedQueue)
    qed
  qed
qed

lemma wf_book_applyDelta:
  assumes "wf_book ob" and "list_all (nonnegative_entry NewFromString) (upd_B update)"
    and "list_all (nonnegative_entry NewFromString) (upd_A update)"
    and "applyDelta NewFromString now update ob = Inr ob'"
  shows "wf_book ob'"
proof -
  have levels: "wf_book (fold (applyLevel NewFromString now isBid) entries b)"
    if "wf_book b" "list_all (nonnegative_entry NewFromString) entries" for isBid entries b
    using that by (induction entries arbitrary: b) (simp_all add: wf_book_applyLevel)
  have side: "wf_book b'"
    if "wf_book b" "list_all (nonnegative_entry NewFromString) entries"
      "applySide NewFromString now isBid entries b = Inr b'" for isBid entries b b'
    using that levels [OF that(1,2), of isBid]
    by (auto simp: applySide_def Let_def wf_book_setLegacySide split: sum.splits)
  from assms(4) obtain ob1 where
    s1: "applySide NewFromString now True (upd_B update) ob = Inr ob1"
    and s2: "applySide NewFromString now False (upd_A update) ob1 = Inr ob'"
    by (auto simp: applyDelta_def split: sum.splits)
  from side [OF side [OF assms(1,2) s1] assms(3) s2] show ?thesis .
qed

lemma wf_book_loadSnapshot:
  assumes "list_all (nonnegative_entry NewFromString) (Bids resp)"
    and "list_all (nonnegative_entry NewFromString) (Asks resp)"
    and "useEnhancedMode ob"
  shows "wf_book (loadSnapshot NewFromString now resp ob)"
proof -
  have level: "wf_book (loadLevel NewFromString now isBid bid b)"
    if "wf_book b" "nonnegative_entry NewFromString bid" for isBid bid b
  proof (cases "length bid < 2")
    case True
    with that show ?thesis by (simp add: loadLevel_def)
  next
    case False
    then obtain price qtyStr extra where bid: "bid = price # qtyStr # extra"
      by (cases bid; cases "tl bid") auto
    show ?thesis
    proof (cases "NewFromString qtyStr")
      case None
      with that bid show ?thesis by (simp add: loadLevel_def)
    next
      case (Some qty)
      with that(2) bid have nn: "0 \<le> qty" by simp
      have "wf_book (setEnhancedSide isBid
               (AList.update price (AddOrder now qty (NewEnhancedOrderQueue price now))
                  (enhancedSide isBid b')) b')" if "wf_book b'" "0 < qty" for b'
        using that
        by (intro wf_book_setEnhancedSide list_all_update wf_queue_new_order)
           (simp_all add: wf_book_sides)
      with that(1) bid Some nn show ?thesis
        by (cases "qty = 0") (simp_all add: loadLevel_def Let_def wf_book_setLegacySide)
    qed
  qed
  have levels: "wf_book (fold (loadLevel NewFromString now isBid) entries b)"
    if "wf_book b" "list_all (nonnegative_entry NewFromString) entries" for isBid entries b
    using that by (induction entries arbitrary: b) (simp_all add: level)
  have "wf_book (ob\<lparr>bids := [], asks := [], enhancedBids := [], enhancedAsks := []\<rparr>)"
    using assms(3) by (simp add: wf_book_def)
  from levels [OF levels [OF this assms(1)] assms(2)] show ?thesis
    by (simp add: loadSnapshot_def Let_def wf_book_def)
qed

lemma wf_book_queue:
  assumes "wf_book ob" and "map_of (enhancedSide isBid ob) price = Some queue"
  shows "totalQty queue = sum_list (map Qty (orders queue)) \<and>
         (\<forall>order \<in> set (orders queue). Qty order > 0)"
  using list_all_map_of [of wf_queue "enhancedSide isBid ob" price queue] assms
  by (simp add: wf_book_sides wf_queue_def total_ok_def sum_qty_def all_positive_def list_all_iff)

text \<open>
  What the pruning does and does not do.  When \<^verbatim>\<open>applyDelta\<close> returns and the first price
  of the update on a side parses, every level of the legacy map of that side whose key parses
  lies on the right side of that price; the enhanced maps come out of the pruning as the
  update loop left them.
\<close>

lemma pruneScan_set:
  assumes "pruneScan NewFromString isBid entries keys = Inr tempPriceQueue"
    and "firstPrice entries = Inr first" and "NewFromString first = Some p0"
  shows "set tempPriceQueue =
           {k \<in> set keys. \<exists>pb. NewFromString k = Some pb \<and> (if isBid then pb > p0 else pb < p0)}"
  using assms(1)
proof (induction keys arbitrary: tempPriceQueue)
  case Nil
  then show ?case by simp
next
  case (Cons k keys)
  show ?case
  proof (cases "NewFromString k")
    case None
    with Cons show ?thesis by auto
  next
    case (Some pb)
    with Cons.prems assms(2,3) obtain rest where
      rest: "pruneScan NewFromString isBid entries keys = Inr rest"
      and t: "tempPriceQueue = (if (if isBid then pb > p0 else pb < p0) then k # rest else rest)"
      by (auto split: sum.splits)
    from Cons.IH [OF rest] Some t show ?thesis by auto
  qed
qed

lemma set_fold_delete:
  "set (fold AList.delete ks m) = {(k, v) \<in> set m. k \<notin> set ks}"
proof (induction ks arbitrary: m)
  case Nil
  then show ?case by simp
next
  case (Cons k ks)
  have "set (AList.delete k m) = {(k', v) \<in> set m. k' \<noteq> k}"
    by (auto simp: AList.delete_eq)
  with Cons show ?case by auto
qed

lemma applySide_enhanced_kept:
  assumes "applySide NewFromString now isBid entries ob = Inr ob'"
  shows "enhancedBids ob' = enhancedBids (fold (applyLevel NewFromString now isBid) entries ob)"
    and "enhancedAsks ob' = enhancedAsks (fold (applyLevel NewFromString now isBid) entries ob)"
  using assms by (auto simp: applySide_def Let_def setLegacySide_def split: sum.splits)

lemma applySide_prunes_legacy:
  assumes "applySide NewFromString now isBid entries ob = Inr ob'"
    and "firstPrice entries = Inr first" and "NewFromString first = Some p0"
    and "(k, queue) \<in> set (legacySide isBid ob')" and "NewFromString k = Some pb"
  shows "if isBid then pb \<le> p0 else p0 \<le> pb"
proof -
  let ?ob1 = "fold (applyLevel NewFromString now isBid) entries ob"
  from assms(1) obtain temp where
    scan: "pruneScan NewFromString isBid entries (map fst (legacySide isBid ?ob1)) = Inr temp"
    and ob': "ob' = setLegacySide isBid (fold AList.delete temp (legacySide isBid ?ob1)) ?ob1"
    by (auto simp: applySide_def Let_def split: sum.splits)
  from ob' have "legacySide isBid ob' = fold AList.delete temp (legacySide isBid ?ob1)"
    by (simp add: legacySide_def setLegacySide_def)
  with assms(4) have in1: "(k, queue) \<in> set (legacySide isBid ?ob1)" and nt: "k \<notin> set temp"
    by (auto simp: set_fold_delete)
  from in1 have "k \<in> set (map fst (legacySide isBid ?ob1))" by force
  with nt pruneScan_set [OF scan assms(2,3)] assms(5) show ?thesis
    by (auto split: if_splits)
qed

lemma applyDelta_prunes_legacy_bids:
  assumes "applyDelta NewFromString now update ob = Inr ob'"
    and "firstPrice (upd_B update) = Inr first" and "NewFromString first = Some p0"
    and "(k, queue) \<in> set (bids ob')" and "NewFromString k = Some pb"
  shows "pb \<le> p0"
proof -
  from assms(1) obtain ob1 where
    s1: "applySide NewFromString now True (upd_B update) ob = Inr ob1"
    and s2: "applySide NewFromString now False (upd_A update) ob1 = Inr ob'"
    by (auto simp: applyDelta_def split: sum.splits)
  have keep: "bids (applyLevel NewFromString now False bid b) = bids b" for bid b
    by (auto simp: applyLevel_def Let_def setLegacySide_def setEnhancedSide_def
          updateEnhancedQueue_def optimizeAllQueues_def split: option.splits)
  have "bids (fold (applyLevel NewFromString now False) es b) = bids b" for es b
    by (induction es arbitrary: b) (simp_all add: keep)
  with s2 have "bids ob' = bids ob1"
    by (auto simp: applySide_def Let_def setLegacySide_def split: sum.splits)
  with assms(4) have "(k, queue) \<in> set (legacySide True ob1)" by (simp add: legacySide_def)
  from applySide_prunes_legacy [OF s1 assms(2,3) this assms(5)] show ?thesis by simp
qed

lemma applyDelta_prunes_legacy_asks:
  assumes "applyDelta NewFromString now update ob = Inr ob'"
    and "firstPrice (upd_A update) = Inr first" and "NewFromString first = Some p0"
    and "(k, queue) \<in> set (asks ob')" and "NewFromString k = Some pb"
  shows "p0 \<le> pb"
proof -
  from assms(1) obtain ob1 where
    s2: "applySide NewFromString now False (upd_A update) ob1 = Inr ob'"
    by (auto simp: applyDelta_def split: sum.splits)
  from assms(4) have "(k, queue) \<in> set (legacySide False ob')" by (simp add: legacySide_def)
  from applySide_prunes_legacy [OF s2 assms(2,3) this assms(5)] show ?thesis by simp
qed

lemma threeLevelBook_eval:
  "threeLevelBook =
     \<lparr>bids = [(''100'', [5]), (''101'', [5]), (''102'', [5])], asks = [],
      enhancedBids =
        [(''100'', \<lparr>orders = [\<lparr>ID = 1, Qty = 5, Timestamp = 0, Age = 0, IsPartial = False\<rparr>],
                   totalQty = 5, nextOrderID = 2, priceLevel = ''100'', lastUpdate = 0\<rparr>),
         (''101'', \<lparr>orders = [\<lparr>ID = 1, Qty = 5, Timestamp = 0, Age = 0, IsPartial = False\<rparr>],
                   totalQty = 5, nextOrderID = 2, priceLevel = ''101'', lastUpdate = 0\<rparr>),
         (''102'', \<lparr>orders = [\<lparr>ID = 1, Qty = 5, Timestamp = 0, Age = 0, IsPartial = False\<rparr>],
                   totalQty = 5, nextOrderID = 2, priceLevel = ''102'', lastUpdate = 0\<rparr>)],
      enhancedAsks = [], symbol = ''ag2510'', lastID = 1, kmeansMode = False, numClusters = 10,
      useEnhancedMode = True, lastOptimization = 0\<rparr>"
  by (simp add: threeLevelBook_def loadSnapshot_def loadLevel_def NewL3OrderBook_def
        sampleNewFromString_def legacySide_def setLegacySide_def enhancedSide_def
        setEnhancedSide_def AddOrder_def NewEnhancedOrderQueue_def Let_def)


text \<open>
  Claim C5 says that after an update with at least one bid entry no bid level of the book
  lies above the first bid price of the update.  The entry with quantity zero deletes a level
  from both the legacy map and the enhanced map, but the pruning loop deletes from the
  legacy map only.  On the book with the bid levels \<open>100\<close>, \<open>101\<close>, \<open>102\<close> and the update
  with the single bid \<open>(99, 1)\<close>, \<^verbatim>\<open>applyDelta\<close> returns normally, the legacy map is left with
  the level \<open>99\<close> alone, and the enhanced map still holds the queues of the levels \<open>100\<close>,
  \<open>101\<close> and \<open>102\<close>, all above \<open>99\<close>.
\<close>

theorem applyDelta_leaves_enhanced_levels:
  "isl (applyDelta sampleNewFromString 1
          \<lparr>upd_U = 2, upd_u = 2, upd_B = [ [''99'', ''1''] ], upd_A = []\<rparr> threeLevelBook) = False \<and>
   map fst (bids (projr (applyDelta sampleNewFromString 1
          \<lparr>upd_U = 2, upd_u = 2, upd_B = [ [''99'', ''1''] ], upd_A = []\<rparr> threeLevelBook))) = [''99''] \<and>
   map fst (enhancedBids (projr (applyDelta sampleNewFromString 1
          \<lparr>upd_U = 2, upd_u = 2, upd_B = [ [''99'', ''1''] ], upd_A = []\<rparr> threeLevelBook))) =
     [''100'', ''101'', ''102'', ''99''] \<and>
   sampleNewFromString ''99'' = Some 99 \<and> sampleNewFromString ''100'' = Some 100"
  by (simp add: threeLevelBook_eval applyDelta_def applySide_def applyLevel_def
        sampleNewFromString_def legacySide_def setLegacySide_def enhancedSide_def
        setEnhancedSide_def updateQueue_def updateEnhancedQueue_def firstPrice_def
        AddOrder_def NewEnhancedOrderQueue_def Let_def)

section \<open>Properties of the clustering\<close>

lemma Fit_one_label_per_point:
  "length (Fit labelOf keys orderBook) = length (extractOrders keys orderBook)"
  by (simp add: Fit_def Let_def)

lemma Fit_label:
  "i < length (extractOrders keys orderBook) \<Longrightarrow>
     Fit labelOf keys orderBook ! i = labelOf (map snd (extractOrders keys orderBook)) i"
  by (auto simp: Fit_def Let_def)

text \<open>
  Whatever the two orders of iteration, the quantities listed for a price are the positive
  quantities of its queue, in queue order.  When both loops visit the map in the same order,
  the output read level by level in that order pairs every collected quantity with the label
  computed for it.
\<close>

lemma clusterQueue_quantities:
  "map fst (fst (clusterQueue labels queue labelIdx)) = filter (\<lambda>qty. qty > 0) queue"
  by (induction queue arbitrary: labelIdx) (simp_all add: Let_def case_prod_beta)

lemma clusterQueue_aligned:
  "labelIdx + length (filter (\<lambda>qty. qty > 0) queue) \<le> length labels \<Longrightarrow>
   clusterQueue labels queue labelIdx =
     (zip (filter (\<lambda>qty. qty > 0) queue)
          (take (length (filter (\<lambda>qty. qty > 0) queue)) (drop labelIdx labels)),
      labelIdx + length (filter (\<lambda>qty. qty > 0) queue))"
proof (induction queue arbitrary: labelIdx)
  case Nil
  then show ?case by simp
next
  case (Cons qty queue)
  show ?case
  proof (cases "qty > 0")
    case False
    with Cons show ?thesis by simp
  next
    case True
    with Cons.prems have lt: "labelIdx < length labels"
      and nxt: "Suc labelIdx + length (filter (\<lambda>qty. qty > 0) queue) \<le> length labels"
      by simp_all
    from lt have "drop labelIdx labels = labels ! labelIdx # drop (Suc labelIdx) labels"
      by (simp add: Cons_nth_drop_Suc)
    with Cons.IH [OF nxt] True lt show ?thesis by (simp add: Let_def)
  qed
qed

lemma clusterLevels_untouched:
  "price \<notin> set keys \<Longrightarrow>
   map_of (clusterLevels labels orderBook keys labelIdx clusteredOrders) price =
     map_of clusteredOrders price"
  by (induction keys arbitrary: labelIdx clusteredOrders)
     (auto simp: Let_def update_conv' split: option.splits prod.splits)

lemma extractOrders_Cons:
  "map snd (extractOrders (price # keys) orderBook) =
     (case map_of orderBook price of None \<Rightarrow> [] | Some queue \<Rightarrow> filter (\<lambda>qty. qty > 0) queue)
     @ map snd (extractOrders keys orderBook)"
  by (simp add: extractOrders_def comp_def split: option.splits)

lemma clusterLevels_aligned:
  assumes "distinct keys"
    and "\<forall>price \<in> set keys. map_of clusteredOrders price = None"
    and "labelIdx + length (extractOrders keys orderBook) \<le> length labels"
  shows "concat (map (\<lambda>price. case map_of (clusterLevels labels orderBook keys labelIdx clusteredOrders)
                                      price of None \<Rightarrow> [] | Some clustered \<Rightarrow> clustered) keys) =
         zip (map snd (extractOrders keys orderBook))
             (take (length (extractOrders keys orderBook)) (drop labelIdx labels))"
  using assms
proof (induction keys arbitrary: labelIdx clusteredOrders)
  case Nil
  then show ?case by (simp add: extractOrders_def)
next
  case (Cons price keys)
  let ?E = "extractOrders keys orderBook"
  from Cons.prems(1) have d: "distinct keys" and nin: "price \<notin> set keys" by simp_all
  show ?case
  proof (cases "map_of orderBook price")
    case None
    then have e: "extractOrders (price # keys) orderBook = ?E"
      by (simp add: extractOrders_def)
    have "map_of (clusterLevels labels orderBook keys labelIdx clusteredOrders) price = None"
      using clusterLevels_untouched [OF nin] Cons.prems(2) by simp
    moreover have "concat (map (\<lambda>price. case map_of (clusterLevels labels orderBook keys labelIdx
                      clusteredOrders) price of None \<Rightarrow> [] | Some clustered \<Rightarrow> clustered) keys) =
         zip (map snd ?E) (take (length ?E) (drop labelIdx labels))"
      using Cons.prems by (intro Cons.IH d) (simp_all add: e)
    ultimately show ?thesis using None by (simp add: e)
  next
    case (Some queue)
    let ?pos = "filter (\<lambda>qty. qty > 0) queue"
    let ?n = "length ?pos"
    let ?cs = "zip ?pos (take ?n (drop labelIdx labels))"
    let ?acc = "if length ?cs > 0 then AList.update price ?cs clusteredOrders else clusteredOrders"
    have len: "length (extractOrders (price # keys) orderBook) = ?n + length ?E"
      using Some by (simp add: extractOrders_def)
    with Cons.prems(3) have b1: "labelIdx + ?n \<le> length labels"
      and b2: "(labelIdx + ?n) + length ?E \<le> length labels" by simp_all
    have step: "clusterLevels labels orderBook (price # keys) labelIdx clusteredOrders =
                  clusterLevels labels orderBook keys (labelIdx + ?n) ?acc"
      using Some clusterQueue_aligned [OF b1] by (simp add: Let_def)
    have acc_keys: "\<forall>p \<in> set keys. map_of ?acc p = None"
      using Cons.prems(2) nin by (auto simp: update_conv')
    have here: "(case map_of (clusterLevels labels orderBook keys (labelIdx + ?n) ?acc) price of
                   None \<Rightarrow> [] | Some clustered \<Rightarrow> clustered) = ?cs"
      using clusterLevels_untouched [OF nin, of labels orderBook "labelIdx + ?n" ?acc]
        Cons.prems(2)
      by (auto simp: update_conv')
    have rest: "concat (map (\<lambda>p. case map_of (clusterLevels labels orderBook keys (labelIdx + ?n) ?acc)
                      p of None \<Rightarrow> [] | Some clustered \<Rightarrow> clustered) keys) =
         zip (map snd ?E) (take (length ?E) (drop (labelIdx + ?n) labels))"
      by (rule Cons.IH [OF d acc_keys b2])
    have l1: "length (take ?n (drop labelIdx labels)) = ?n"
      using b1 by simp
    have split: "take (?n + length ?E) (drop labelIdx labels) =
                   take ?n (drop labelIdx labels) @ take (length ?E) (drop (labelIdx + ?n) labels)"
      by (subst take_add) (simp add: add.commute)
    have "zip (map snd (extractOrders (price # keys) orderBook))
              (take (length (extractOrders (price # keys) orderBook)) (drop labelIdx labels)) =
          ?cs @ zip (map snd ?E) (take (length ?E) (drop (labelIdx + ?n) labels))"
      unfolding len split using Some l1 by (simp add: extractOrders_Cons zip_append)
    with step here rest show ?thesis by simp
  qed
qed

lemma ClusterOrderBook_aligned_same_order:
  assumes "distinct keys"
  shows "concat (map (\<lambda>price. case map_of (ClusterOrderBook labelOf keys keys orderBook) price of
                                None \<Rightarrow> [] | Some clustered \<Rightarrow> clustered) keys) =
         zip (map snd (extractOrders keys orderBook)) (Fit labelOf keys orderBook)"
proof -
  have len: "length (Fit labelOf keys orderBook) = length (extractOrders keys orderBook)"
    by (simp add: Fit_def Let_def)
  from clusterLevels_aligned [OF assms, of "[]" 0 orderBook "Fit labelOf keys orderBook"] len
  show ?thesis by (simp add: ClusterOrderBook_def Let_def)
qed

lemma clusterLevels_quantities:
  assumes "distinct keys" and "map_of (clusterLevels labels orderBook keys labelIdx clusteredOrders) price = Some clustered"
    and "map_of clusteredOrders price = None"
  shows "\<exists>queue. map_of orderBook price = Some queue \<and>
                 map fst clustered = filter (\<lambda>qty. qty > 0) queue"
  using assms
proof (induction keys arbitrary: labelIdx clusteredOrders)
  case Nil
  then show ?case by simp
next
  case (Cons k keys)
  from Cons.prems(1) have d: "distinct keys" and nin: "k \<notin> set keys" by simp_all
  show ?case
  proof (cases "map_of orderBook k")
    case None
    with Cons.IH [OF d] Cons.prems show ?thesis by simp
  next
    case (Some queue)
    obtain cs idx' where cq: "clusterQueue labels queue labelIdx = (cs, idx')"
      by (cases "clusterQueue labels queue labelIdx")
    have q: "map fst cs = filter (\<lambda>qty. qty > 0) queue"
      using clusterQueue_quantities [of labels queue labelIdx] cq by simp
    let ?acc = "if length cs > 0 then AList.update k cs clusteredOrders else clusteredOrders"
    from Cons.prems(2) Some cq have res:
      "map_of (clusterLevels labels orderBook keys idx' ?acc) price = Some clustered"
      by (simp add: Let_def)
    show ?thesis
    proof (cases "map_of ?acc price")
      case None
      from Cons.IH [OF d res None] show ?thesis .
    next
      case acc: (Some v)
      with Cons.prems(3) have kp: "k = price" and v: "v = cs"
        by (auto simp: update_conv' split: if_splits)
      from nin kp have "price \<notin> set keys" by simp
      from clusterLevels_untouched [OF this, of labels orderBook idx' ?acc] res acc v
      have "clustered = cs" by simp
      with q kp Some show ?thesis by simp
    qed
  qed
qed

lemma ClusterOrderBook_quantities:
  assumes "distinct keysOut"
    and "map_of (ClusterOrderBook labelOf keysFit keysOut orderBook) price = Some clustered"
  shows "\<exists>queue. map_of orderBook price = Some queue \<and>
                 map fst clustered = filter (\<lambda>qty. qty > 0) queue"
  using clusterLevels_quantities [OF assms(1), of "Fit labelOf keysFit orderBook" orderBook 0 "[]"
          price clustered] assms(2)
  by (simp add: ClusterOrderBook_def Let_def)

text \<open>
  Claim C8 says that the label paired with a quantity is the label that the fit computed for
  that same order.  The labels are computed in the order in which the loop inside \<^verbatim>\<open>Fit\<close>
  visits the map and are handed out in the order in which the loop of
  \<^verbatim>\<open>ClusterOrderBook\<close> visits it, and Go fixes no order for either loop.  On the book with
  the order \<open>1\<close> at price \<open>1\<close> and the order \<open>100\<close> at price \<open>2\<close>, when \<^verbatim>\<open>Fit\<close> visits
  price \<open>1\<close> first and \<^verbatim>\<open>ClusterOrderBook\<close> visits price \<open>2\<close> first, the order \<open>100\<close> is
  paired with the label computed for point \<open>0\<close>, which is the order \<open>1\<close>, and the order \<open>1\<close>
  with the label computed for point \<open>1\<close>, which is the order \<open>100\<close>.
\<close>

theorem ClusterOrderBook_misaligned:
  "ClusterOrderBook labelOf [''1'', ''2''] [''2'', ''1''] [(''1'', [1]), (''2'', [100])] =
     [(''2'', [(100, labelOf [1, 100] 0)]), (''1'', [(1, labelOf [1, 100] 1)])]"
  by (simp add: ClusterOrderBook_def Fit_def extractOrders_def Let_def upt_conv_Cons)

end
